theory Spec2Isabelle
  imports Main
begin

section \<open>Values of the host language\<close>

subsection \<open>Double-precision numbers\<close>

text \<open>
  A \<open>float64\<close> is either not-a-number, an infinity with its sign, or a finite value
  given by sign, mantissa and binary exponent: \<open>Finite s m e\<close> stands for
  \<open>(if s then -1 else 1) * m * 2 ^ e\<close>.  Every IEEE-754 double is such a value
  (with \<open>m < 2 ^ 53\<close>); the type is not restricted to that range, so what is proved
  for all values of the type holds for all doubles.  The sign of zero is kept.
\<close>

datatype float64 = Finite bool nat int | Inf bool | NaN

text \<open>
  The comparison \<open>==\<close> of the language on \<open>float64\<close>: not-a-number differs from
  everything, itself included; the two zeros are equal; otherwise the values are compared.
\<close>

fun float64_eq :: "float64 \<Rightarrow> float64 \<Rightarrow> bool" where
  "float64_eq (Finite s m e) (Finite s' m' e') =
     (let k = min e e'; a = m * 2 ^ nat (e - k); b = m' * 2 ^ nat (e' - k)
      in a = b \<and> (a = 0 \<or> s = s'))"
| "float64_eq (Inf s) (Inf s') = (s = s')"
| "float64_eq _ _ = False"

fun is_finite :: "float64 \<Rightarrow> bool" where
  "is_finite (Finite s m e) = True"
| "is_finite _ = False"

text \<open>The doubles \<open>0\<close>, \<open>1\<close>, \<open>2\<close> and \<open>4\<close>, used in the scenarios below.\<close>

definition f0 :: float64 where "f0 = Finite False 0 0"
definition f1 :: float64 where "f1 = Finite False 1 0"
definition f2 :: float64 where "f2 = Finite False 1 1"
definition f4 :: float64 where "f4 = Finite False 1 2"

subsection \<open>Slices seen as values\<close>

text \<open>
  A slice whose backing array is shared with nothing else is determined by whether it
  is \<open>nil\<close> and by its elements: \<open>None\<close> is the nil slice, \<open>Some xs\<close> a non-nil
  slice holding \<open>xs\<close> (\<open>Some []\<close> is empty but not nil; the encoder tells the two
  apart).  The slices of feature collections, where sharing matters, are modelled
  with an explicit store further down.
\<close>

type_synonym 'a slice = "'a list option"

definition elems :: "'a slice \<Rightarrow> 'a list" where
  "elems s = (case s of None \<Rightarrow> [] | Some xs \<Rightarrow> xs)"

definition len :: "'a slice \<Rightarrow> nat" where
  "len s = length (elems s)"

text \<open>
  \<open>make(T, 0, n)\<close>: a fresh, empty, non-nil slice.  Its capacity \<open>n\<close> only decides
  whether later appends reallocate, which a value cannot show.
\<close>

definition make_slice :: "nat \<Rightarrow> 'a slice" where
  "make_slice n = Some []"

text \<open>\<open>append(s, xs...)\<close> on values: appending nothing to nil gives nil.\<close>

definition append_slice :: "'a slice \<Rightarrow> 'a list \<Rightarrow> 'a slice" where
  "append_slice s xs =
     (case s of None \<Rightarrow> (if xs = [] then None else Some xs)
      | Some ys \<Rightarrow> Some (ys @ xs))"

text \<open>
  The slice a variadic parameter receives when the call lists its arguments one by one:
  nil for no argument.  (A call \<open>f(s...)\<close> passes the slice \<open>s\<close> itself; the
  constructors below therefore take a slice.)
\<close>

definition variadic :: "'a list \<Rightarrow> 'a slice" where
  "variadic xs = (if xs = [] then None else Some xs)"

section \<open>Positions and coordinate arrays\<close>

record position =
  Longitude :: float64
  Latitude :: float64

text \<open>Comparison of two \<open>Position\<close> structs with \<open>==\<close>: field by field.\<close>

definition Position_eq :: "position \<Rightarrow> position \<Rightarrow> bool" where
  "Position_eq p q \<longleftrightarrow>
     float64_eq (Longitude p) (Longitude q) \<and> float64_eq (Latitude p) (Latitude q)"

type_synonym LineStringCoordinates = "position slice"
type_synonym LinearRing = "position slice"
type_synonym PolygonCoordinates = "LinearRing slice"

definition NewLineStringCoordinates ::
  "position \<Rightarrow> position \<Rightarrow> position slice \<Rightarrow> LineStringCoordinates" where
  "NewLineStringCoordinates c0 c1 cn =
     (let coordinates = make_slice (2 + len cn)
      in append_slice (append_slice coordinates [c0, c1]) (elems cn))"

text \<open>The panic of \<open>NewLinearRing\<close>, with the two positions its message prints.\<close>

datatype panic = InvalidRing position position

definition NewLinearRing ::
  "position \<Rightarrow> position \<Rightarrow> position \<Rightarrow> position \<Rightarrow> position slice \<Rightarrow> panic + LinearRing" where
  "NewLinearRing c0 c1 c2 c3 cn =
     (let coordinates = make_slice (4 + len cn);
          coordinates = append_slice (append_slice coordinates [c0, c1, c2, c3]) (elems cn)
      in if \<not> Position_eq (elems coordinates ! (len coordinates - 1)) c0
         then Inl (InvalidRing c0 (elems coordinates ! (len coordinates - 1)))
         else Inr coordinates)"

definition NewPolygonCoordinates :: "LinearRing \<Rightarrow> LinearRing slice \<Rightarrow> PolygonCoordinates" where
  "NewPolygonCoordinates outerBoundary holes =
     (let coordinates = make_slice (1 + len holes)
      in append_slice (append_slice coordinates [outerBoundary]) (elems holes))"

section \<open>Geometries, features and feature collections\<close>

text \<open>
  The seven implementations of the interface \<open>Geometry\<close>, each a non-nil pointer to
  its struct (or, for the collection, to a slice of interface values, any of which may be
  the nil interface, \<open>None\<close>).
\<close>

datatype geometry =
    Point position
  | MultiPoint "position slice"
  | LineString LineStringCoordinates
  | MultiLineString "LineStringCoordinates slice"
  | Polygon PolygonCoordinates
  | MultiPolygon "PolygonCoordinates slice"
  | GeometryCollection "geometry option slice"

definition NewPoint :: "position \<Rightarrow> geometry" where
  "NewPoint p = Point p"

definition NewMultiPoint :: "position slice \<Rightarrow> geometry" where
  "NewMultiPoint pn = MultiPoint pn"

definition NewLineString :: "position \<Rightarrow> position \<Rightarrow> position slice \<Rightarrow> geometry" where
  "NewLineString c0 c1 cn = LineString (NewLineStringCoordinates c0 c1 cn)"

definition NewMultiLineString :: "LineStringCoordinates slice \<Rightarrow> geometry" where
  "NewMultiLineString coordinates = MultiLineString coordinates"

definition NewPolygon :: "LinearRing \<Rightarrow> LinearRing slice \<Rightarrow> geometry" where
  "NewPolygon outerBoundary holes = Polygon (NewPolygonCoordinates outerBoundary holes)"

definition NewMultiPolygon :: "PolygonCoordinates slice \<Rightarrow> geometry" where
  "NewMultiPolygon coordinates = MultiPolygon coordinates"

definition NewGeometryCollection :: "geometry option slice \<Rightarrow> geometry" where
  "NewGeometryCollection geometries = GeometryCollection geometries"

fun Type :: "geometry \<Rightarrow> string" where
  "Type (Point c) = ''Point''"
| "Type (MultiPoint c) = ''MultiPoint''"
| "Type (LineString c) = ''LineString''"
| "Type (MultiLineString c) = ''MultiLineString''"
| "Type (Polygon c) = ''Polygon''"
| "Type (MultiPolygon c) = ''MultiPolygon''"
| "Type (GeometryCollection gs) = ''GeometryCollection''"

section \<open>The formatting verb \<open>%f\<close>\<close>

text \<open>
  \<open>fmt.Sprintf("%f", x)\<close> writes a finite \<open>x\<close> in decimal with six digits after
  the point, rounded to nearest with ties to even on the exact value, and a minus sign
  whenever the sign bit is set; it writes \<open>NaN\<close>, \<open>+Inf\<close> and \<open>-Inf\<close> for the
  three other values.
\<close>

definition digit_char :: "nat \<Rightarrow> char" where
  "digit_char d = ''0123456789'' ! d"

function dec :: "nat \<Rightarrow> string" where
  "dec n = (if n < 10 then [digit_char n] else dec (n div 10) @ [digit_char (n mod 10)])"
  by pat_completeness auto
termination
  by (relation "measure (\<lambda>n. n)") auto

declare dec.simps [simp del]

definition pad6 :: "nat \<Rightarrow> string" where
  "pad6 n = map (\<lambda>k. digit_char (n div 10 ^ k mod 10)) [5, 4, 3, 2, 1, 0]"

definition round_half_even :: "nat \<Rightarrow> nat \<Rightarrow> nat" where
  "round_half_even a b =
     (let q = a div b; r = a mod b
      in if b < 2 * r \<or> (2 * r = b \<and> odd q) then q + 1 else q)"

text \<open>The value \<open>m * 2 ^ e\<close> in millionths, rounded.\<close>

definition millionths :: "nat \<Rightarrow> int \<Rightarrow> nat" where
  "millionths m e =
     (if 0 \<le> e then m * 10 ^ 6 * 2 ^ nat e
      else round_half_even (m * 10 ^ 6) (2 ^ nat (- e)))"

fun fmt_f :: "float64 \<Rightarrow> string" where
  "fmt_f NaN = ''NaN''"
| "fmt_f (Inf s) = (if s then ''-Inf'' else ''+Inf'')"
| "fmt_f (Finite s m e) =
     (let n = millionths m e
      in (if s then ''-'' else []) @ dec (n div 10 ^ 6) @ ''.'' @ pad6 (n mod 10 ^ 6))"

text \<open>\<open>Position.MarshalJSON\<close>: the text is built by \<open>Sprintf\<close>, the error is always nil.\<close>

definition Position_MarshalJSON :: "position \<Rightarrow> string" where
  "Position_MarshalJSON p = ''['' @ fmt_f (Longitude p) @ '','' @ fmt_f (Latitude p) @ '']''"

section \<open>The JSON encoder of the standard library\<close>

text \<open>
  \<open>ToText\<close> and every \<open>MarshalJSON\<close> method of the package call \<open>json.Marshal\<close>.
  What that function does with the values of this package is modelled here: the text an
  implementation of \<open>json.Marshaler\<close> returns is checked and compacted by the
  library's scanner before it is used, strings are escaped, nil slices, maps and
  interfaces are written as \<open>null\<close>, struct fields are written in declaration order
  and map entries in the order of their keys.
\<close>

subsection \<open>The scanner\<close>

text \<open>
  The scanner is a state machine that reads one byte at a time; it keeps the state
  function to run on the next byte, a stack of the objects and arrays it is inside (here
  with the innermost first), and whether it has failed or finished the top-level value.
\<close>

datatype scan_state =
    stateBeginValueOrEmpty | stateBeginValue | stateBeginStringOrEmpty | stateBeginString
  | stateEndValue | stateEndTop
  | stateInString | stateInStringEsc
  | stateInStringEscU | stateInStringEscU1 | stateInStringEscU12 | stateInStringEscU123
  | stateNeg | state1 | state0 | stateDot | stateDot0 | stateE | stateESign | stateE0
  | stateT | stateTr | stateTru
  | stateF | stateFa | stateFal | stateFals
  | stateN | stateNu | stateNul
  | stateError

datatype parse_state = parseObjectKey | parseObjectValue | parseArrayValue

datatype opcode =
    scanContinue | scanBeginLiteral | scanBeginObject | scanObjectKey | scanObjectValue
  | scanEndObject | scanBeginArray | scanArrayValue | scanEndArray
  | scanSkipSpace | scanEnd | scanError

record scanner =
  step :: scan_state
  parseState :: "parse_state list"
  err :: bool
  endTop :: bool

definition maxNestingDepth :: nat where
  "maxNestingDepth = 10000"

definition newScanner :: scanner where
  "newScanner = \<lparr>step = stateBeginValue, parseState = [], err = False, endTop = False\<rparr>"

definition isSpace :: "char \<Rightarrow> bool" where
  "isSpace c \<longleftrightarrow> c = CHR '' '' \<or> c = CHR 0x09 \<or> c = CHR 0x0D \<or> c = CHR 0x0A"

definition is_digit :: "char \<Rightarrow> bool" where
  "is_digit c \<longleftrightarrow> c \<in> set ''0123456789''"

definition is_digit19 :: "char \<Rightarrow> bool" where
  "is_digit19 c \<longleftrightarrow> c \<in> set ''123456789''"

definition is_hex :: "char \<Rightarrow> bool" where
  "is_hex c \<longleftrightarrow> c \<in> set ''0123456789abcdefABCDEF''"

definition scan_error :: "scanner \<Rightarrow> opcode \<times> scanner" where
  "scan_error s = (scanError, s\<lparr>step := stateError, err := True\<rparr>)"

definition goto :: "scanner \<Rightarrow> scan_state \<Rightarrow> opcode \<Rightarrow> opcode \<times> scanner" where
  "goto s st v = (v, s\<lparr>step := st\<rparr>)"

definition pushParseState :: "scanner \<Rightarrow> parse_state \<Rightarrow> opcode \<Rightarrow> opcode \<times> scanner" where
  "pushParseState s newParseState successState =
     (let s' = s\<lparr>parseState := newParseState # parseState s\<rparr>
      in if length (parseState s') \<le> maxNestingDepth then (successState, s')
         else scan_error s')"

definition popParseState :: "scanner \<Rightarrow> scanner" where
  "popParseState s =
     (let ps = tl (parseState s)
      in if ps = [] then s\<lparr>parseState := ps, step := stateEndTop, endTop := True\<rparr>
         else s\<lparr>parseState := ps, step := stateEndValue\<rparr>)"

definition stateEndTop_fn :: "scanner \<Rightarrow> char \<Rightarrow> opcode \<times> scanner" where
  "stateEndTop_fn s c = (if \<not> isSpace c then (scanEnd, snd (scan_error s)) else (scanEnd, s))"

definition stateEndValue_fn :: "scanner \<Rightarrow> char \<Rightarrow> opcode \<times> scanner" where
  "stateEndValue_fn s c =
     (case parseState s of
        [] \<Rightarrow> stateEndTop_fn (s\<lparr>step := stateEndTop, endTop := True\<rparr>) c
      | ps # rest \<Rightarrow>
          if isSpace c then goto s stateEndValue scanSkipSpace
          else (case ps of
             parseObjectKey \<Rightarrow>
               if c = CHR '':''
               then (scanObjectKey, s\<lparr>parseState := parseObjectValue # rest, step := stateBeginValue\<rparr>)
               else scan_error s
           | parseObjectValue \<Rightarrow>
               if c = CHR '',''
               then (scanObjectValue, s\<lparr>parseState := parseObjectKey # rest, step := stateBeginString\<rparr>)
               else if c = CHR ''}'' then (scanEndObject, popParseState s)
               else scan_error s
           | parseArrayValue \<Rightarrow>
               if c = CHR '','' then goto s stateBeginValue scanArrayValue
               else if c = CHR '']'' then (scanEndArray, popParseState s)
               else scan_error s))"

definition stateBeginValue_fn :: "scanner \<Rightarrow> char \<Rightarrow> opcode \<times> scanner" where
  \<open>stateBeginValue_fn s c =
     (if isSpace c then (scanSkipSpace, s)
      else if c = CHR ''{''
        then pushParseState (s\<lparr>step := stateBeginStringOrEmpty\<rparr>) parseObjectKey scanBeginObject
      else if c = CHR ''[''
        then pushParseState (s\<lparr>step := stateBeginValueOrEmpty\<rparr>) parseArrayValue scanBeginArray
      else if c = CHR ''"'' then goto s stateInString scanBeginLiteral
      else if c = CHR ''-'' then goto s stateNeg scanBeginLiteral
      else if c = CHR ''0'' then goto s state0 scanBeginLiteral
      else if c = CHR ''t'' then goto s stateT scanBeginLiteral
      else if c = CHR ''f'' then goto s stateF scanBeginLiteral
      else if c = CHR ''n'' then goto s stateN scanBeginLiteral
      else if is_digit19 c then goto s state1 scanBeginLiteral
      else scan_error s)\<close>

definition stateBeginString_fn :: "scanner \<Rightarrow> char \<Rightarrow> opcode \<times> scanner" where
  \<open>stateBeginString_fn s c =
     (if isSpace c then (scanSkipSpace, s)
      else if c = CHR ''"'' then goto s stateInString scanBeginLiteral
      else scan_error s)\<close>

definition state0_fn :: "scanner \<Rightarrow> char \<Rightarrow> opcode \<times> scanner" where
  "state0_fn s c =
     (if c = CHR ''.'' then goto s stateDot scanContinue
      else if c = CHR ''e'' \<or> c = CHR ''E'' then goto s stateE scanContinue
      else stateEndValue_fn s c)"

definition stateESign_fn :: "scanner \<Rightarrow> char \<Rightarrow> opcode \<times> scanner" where
  "stateESign_fn s c = (if is_digit c then goto s stateE0 scanContinue else scan_error s)"

definition expect :: "scanner \<Rightarrow> char \<Rightarrow> char \<Rightarrow> scan_state \<Rightarrow> opcode \<times> scanner" where
  "expect s c wanted st = (if c = wanted then goto s st scanContinue else scan_error s)"

definition expect_hex :: "scanner \<Rightarrow> char \<Rightarrow> scan_state \<Rightarrow> opcode \<times> scanner" where
  "expect_hex s c st = (if is_hex c then goto s st scanContinue else scan_error s)"

text \<open>One call \<open>s.step(s, c)\<close>: the state function stored in the scanner, applied.\<close>

definition scan_step :: "scanner \<Rightarrow> char \<Rightarrow> opcode \<times> scanner" where
  \<open>scan_step s c =
     (case step s of
        stateBeginValueOrEmpty \<Rightarrow>
          if isSpace c then (scanSkipSpace, s)
          else if c = CHR '']'' then stateEndValue_fn s c
          else stateBeginValue_fn s c
      | stateBeginValue \<Rightarrow> stateBeginValue_fn s c
      | stateBeginStringOrEmpty \<Rightarrow>
          if isSpace c then (scanSkipSpace, s)
          else if c = CHR ''}''
            then stateEndValue_fn (s\<lparr>parseState := parseObjectValue # tl (parseState s)\<rparr>) c
          else stateBeginString_fn s c
      | stateBeginString \<Rightarrow> stateBeginString_fn s c
      | stateEndValue \<Rightarrow> stateEndValue_fn s c
      | stateEndTop \<Rightarrow> stateEndTop_fn s c
      | stateInString \<Rightarrow>
          if c = CHR ''"'' then goto s stateEndValue scanContinue
          else if c = CHR 0x5C then goto s stateInStringEsc scanContinue
          else if of_char c < (0x20 :: nat) then scan_error s
          else (scanContinue, s)
      | stateInStringEsc \<Rightarrow>
          if c \<in> set ''bfnrt'' \<or> c = CHR 0x5C \<or> c = CHR ''/'' \<or> c = CHR ''"''
            then goto s stateInString scanContinue
          else if c = CHR ''u'' then goto s stateInStringEscU scanContinue
          else scan_error s
      | stateInStringEscU \<Rightarrow> expect_hex s c stateInStringEscU1
      | stateInStringEscU1 \<Rightarrow> expect_hex s c stateInStringEscU12
      | stateInStringEscU12 \<Rightarrow> expect_hex s c stateInStringEscU123
      | stateInStringEscU123 \<Rightarrow> expect_hex s c stateInString
      | stateNeg \<Rightarrow>
          if c = CHR ''0'' then goto s state0 scanContinue
          else if is_digit19 c then goto s state1 scanContinue
          else scan_error s
      | state1 \<Rightarrow> if is_digit c then goto s state1 scanContinue else state0_fn s c
      | state0 \<Rightarrow> state0_fn s c
      | stateDot \<Rightarrow> if is_digit c then goto s stateDot0 scanContinue else scan_error s
      | stateDot0 \<Rightarrow>
          if is_digit c then (scanContinue, s)
          else if c = CHR ''e'' \<or> c = CHR ''E'' then goto s stateE scanContinue
          else stateEndValue_fn s c
      | stateE \<Rightarrow>
          if c = CHR ''+'' \<or> c = CHR ''-'' then goto s stateESign scanContinue
          else stateESign_fn s c
      | stateESign \<Rightarrow> stateESign_fn s c
      | stateE0 \<Rightarrow> if is_digit c then (scanContinue, s) else stateEndValue_fn s c
      | stateT \<Rightarrow> expect s c CHR ''r'' stateTr
      | stateTr \<Rightarrow> expect s c CHR ''u'' stateTru
      | stateTru \<Rightarrow> expect s c CHR ''e'' stateEndValue
      | stateF \<Rightarrow> expect s c CHR ''a'' stateFa
      | stateFa \<Rightarrow> expect s c CHR ''l'' stateFal
      | stateFal \<Rightarrow> expect s c CHR ''s'' stateFals
      | stateFals \<Rightarrow> expect s c CHR ''e'' stateEndValue
      | stateN \<Rightarrow> expect s c CHR ''u'' stateNu
      | stateNu \<Rightarrow> expect s c CHR ''l'' stateNul
      | stateNul \<Rightarrow> expect s c CHR ''l'' stateEndValue
      | stateError \<Rightarrow> (scanError, s))\<close>

text \<open>\<open>scan.eof()\<close>: does the input end where a top-level value is complete?\<close>

definition scan_eof :: "scanner \<Rightarrow> opcode" where
  "scan_eof s =
     (if err s then scanError
      else if endTop s then scanEnd
      else if endTop (snd (scan_step s CHR '' '')) then scanEnd
      else scanError)"

subsection \<open>Compaction of the text a \<open>Marshaler\<close> returns\<close>

definition hex :: "nat \<Rightarrow> char" where
  "hex d = ''0123456789abcdef'' ! d"

definition skips :: "opcode \<Rightarrow> bool" where
  "skips v \<longleftrightarrow> v = scanSkipSpace \<or> v = scanEnd \<or> v = scanError"

text \<open>
  The loop of \<open>appendCompact\<close> with HTML escaping on, as \<open>json.Marshal\<close> runs it.
  For each byte \<open>c\<close> it writes an escape in place of \<open><\<close>, \<open>>\<close> and \<open>&\<close>
  and in place of the three bytes of U+2028 and U+2029, steps the scanner, stops at an
  error, and drops the bytes the scanner asks to skip (white space); every other byte is
  copied.  \<open>k\<close> counts the bytes still covered by the last three-byte escape.  The text
  gathered is only used when the scan succeeds.
\<close>

fun compact_loop :: "scanner \<Rightarrow> nat \<Rightarrow> string \<Rightarrow> string \<times> scanner" where
  "compact_loop s k [] = ([], s)"
| "compact_loop s k (c # cs) =
     (let html = (c = CHR ''<'' \<or> c = CHR ''>'' \<or> c = CHR ''&'');
          sep = (c = CHR 0xE2 \<and> length cs \<ge> 2 \<and> cs ! 0 = CHR 0x80
                   \<and> (cs ! 1 = CHR 0xA8 \<or> cs ! 1 = CHR 0xA9));
          (v, s') = scan_step s c
      in if v = scanError then ([], s')
         else
           let out =
                 (if html then [CHR 0x5C, CHR ''u'', CHR ''0'', CHR ''0'',
                                hex (of_char c div 16), hex (of_char c mod 16)]
                  else if sep then [CHR 0x5C, CHR ''u'', CHR ''2'', CHR ''0'', CHR ''2'',
                                    hex (of_char (cs ! 1) mod 16)]
                  else if 0 < k \<or> skips v then []
                  else [c]);
               (rest, s'') = compact_loop s' (if sep then 2 else k - 1) cs
           in (out @ rest, s''))"

definition compact :: "string \<Rightarrow> string option" where
  "compact src =
     (let (out, s) = compact_loop newScanner 0 src
      in if scan_eof s = scanError then None else Some out)"

subsection \<open>Strings\<close>

text \<open>
  The length of the well-formed UTF-8 sequence that starts a byte string whose first
  byte is not ASCII, or 0 when there is none (\<open>utf8.DecodeRuneInString\<close> then
  returns the replacement character with size 1).
\<close>

definition in_range :: "char \<Rightarrow> nat \<Rightarrow> nat \<Rightarrow> bool" where
  "in_range c lo hi \<longleftrightarrow> lo \<le> of_char c \<and> of_char c \<le> hi"

fun rune_size :: "string \<Rightarrow> nat" where
  "rune_size [] = 0"
| "rune_size (c # cs) =
     (let b = of_char c :: nat
      in if 0xC2 \<le> b \<and> b \<le> 0xDF then
           (case cs of
              c1 # _ \<Rightarrow> if in_range c1 0x80 0xBF then 2 else 0
            | _ \<Rightarrow> 0)
         else if 0xE0 \<le> b \<and> b \<le> 0xEF then
           (case cs of
              c1 # c2 # _ \<Rightarrow>
                if in_range c1 (if b = 0xE0 then 0xA0 else 0x80) (if b = 0xED then 0x9F else 0xBF)
                   \<and> in_range c2 0x80 0xBF
                then 3 else 0
            | _ \<Rightarrow> 0)
         else if 0xF0 \<le> b \<and> b \<le> 0xF4 then
           (case cs of
              c1 # c2 # c3 # _ \<Rightarrow>
                if in_range c1 (if b = 0xF0 then 0x90 else 0x80) (if b = 0xF4 then 0x8F else 0xBF)
                   \<and> in_range c2 0x80 0xBF \<and> in_range c3 0x80 0xBF
                then 4 else 0
            | _ \<Rightarrow> 0)
         else 0)"

text \<open>
  How \<open>appendString\<close> writes one ASCII byte when HTML escaping is on: printable bytes
  other than the double quote, the backslash, \<open><\<close>, \<open>>\<close> and \<open>&\<close> as they
  are, the rest escaped.
\<close>

definition escape_ascii :: "char \<Rightarrow> string" where
  \<open>escape_ascii c =
     (if (0x20 :: nat) \<le> of_char c \<and> c \<notin> set [CHR ''"'', CHR 0x5C, CHR ''<'', CHR ''>'', CHR ''&'']
        then [c]
      else if c = CHR 0x5C \<or> c = CHR ''"'' then [CHR 0x5C, c]
      else if c = CHR 0x08 then [CHR 0x5C, CHR ''b'']
      else if c = CHR 0x0C then [CHR 0x5C, CHR ''f'']
      else if c = CHR 0x0A then [CHR 0x5C, CHR ''n'']
      else if c = CHR 0x0D then [CHR 0x5C, CHR ''r'']
      else if c = CHR 0x09 then [CHR 0x5C, CHR ''t'']
      else [CHR 0x5C, CHR ''u'', CHR ''0'', CHR ''0'', hex (of_char c div 16), hex (of_char c mod 16)])\<close>

function appendString_loop :: "string \<Rightarrow> string" where
  "appendString_loop [] = []"
| "appendString_loop (c # cs) =
     (if of_char c < (0x80 :: nat) then escape_ascii c @ appendString_loop cs
      else
        let n = rune_size (c # cs)
        in if n = 0 then [CHR 0x5C, CHR ''u'', CHR ''f'', CHR ''f'', CHR ''f'', CHR ''d'']
                         @ appendString_loop cs
           else if n = 3 \<and> c = CHR 0xE2 \<and> cs ! 0 = CHR 0x80
                   \<and> (cs ! 1 = CHR 0xA8 \<or> cs ! 1 = CHR 0xA9)
             then [CHR 0x5C, CHR ''u'', CHR ''2'', CHR ''0'', CHR ''2'', hex (of_char (cs ! 1) mod 16)]
                  @ appendString_loop (drop 2 cs)
           else c # take (n - 1) cs @ appendString_loop (drop (n - 1) cs))"
  by pat_completeness auto
termination
  by (relation "measure length") auto

definition encode_string :: "string \<Rightarrow> string" where
  \<open>encode_string s = [CHR ''"''] @ appendString_loop s @ [CHR ''"'']\<close>

subsection \<open>Composite values\<close>

datatype json_error = MarshalerError | UnsupportedTypeError

type_synonym encoded = "json_error + string"

text \<open>
  A value whose type implements \<open>json.Marshaler\<close>: the method's error is wrapped, its
  text is checked and compacted, and a text that is not JSON is an error as well.
\<close>

definition marshalerEncoder :: "encoded \<Rightarrow> encoded" where
  "marshalerEncoder r =
     (case r of
        Inl e \<Rightarrow> Inl MarshalerError
      | Inr b \<Rightarrow> (case compact b of None \<Rightarrow> Inl MarshalerError | Some out \<Rightarrow> Inr out))"

text \<open>Texts joined by commas; the first error, in order, ends the encoding.\<close>

fun encode_elems :: "encoded list \<Rightarrow> encoded" where
  "encode_elems [] = Inr []"
| "encode_elems [r] = r"
| "encode_elems (r # rs) =
     (case r of
        Inl e \<Rightarrow> Inl e
      | Inr t \<Rightarrow> (case encode_elems rs of Inl e \<Rightarrow> Inl e | Inr ts \<Rightarrow> Inr (t @ '','' @ ts)))"

text \<open>A slice, given the encodings of its elements: \<open>null\<close> when nil.\<close>

definition sliceEncoder :: "encoded list option \<Rightarrow> encoded" where
  "sliceEncoder s =
     (case s of
        None \<Rightarrow> Inr ''null''
      | Some rs \<Rightarrow>
          (case encode_elems rs of Inl e \<Rightarrow> Inl e | Inr t \<Rightarrow> Inr (''['' @ t @ '']'')))"

text \<open>A value of interface type, given the encoding of what it holds: \<open>null\<close> when nil.\<close>

definition interfaceEncoder :: "encoded option \<Rightarrow> encoded" where
  "interfaceEncoder v = (case v of None \<Rightarrow> Inr ''null'' | Some r \<Rightarrow> r)"

definition encode_member :: "string \<times> encoded \<Rightarrow> encoded" where
  "encode_member kv =
     (case snd kv of Inl e \<Rightarrow> Inl e | Inr t \<Rightarrow> Inr (encode_string (fst kv) @ '':'' @ t))"

text \<open>A struct, given its field names and the encodings of the fields, in declaration order.\<close>

definition structEncoder :: "(string \<times> encoded) list \<Rightarrow> encoded" where
  "structEncoder fs =
     (case encode_elems (map encode_member fs) of
        Inl e \<Rightarrow> Inl e
      | Inr t \<Rightarrow> Inr (''{'' @ t @ ''}''))"

text \<open>Keys of a map are written in increasing order, compared as byte strings.\<close>

fun string_less :: "string \<Rightarrow> string \<Rightarrow> bool" where
  "string_less [] [] = False"
| "string_less [] (y # ys) = True"
| "string_less (x # xs) [] = False"
| "string_less (x # xs) (y # ys) =
     ((of_char x :: nat) < of_char y \<or> (x = y \<and> string_less xs ys))"

fun insert_entry :: "string \<times> 'a \<Rightarrow> (string \<times> 'a) list \<Rightarrow> (string \<times> 'a) list" where
  "insert_entry kv [] = [kv]"
| "insert_entry kv (x # xs) =
     (if string_less (fst x) (fst kv) then x # insert_entry kv xs else kv # x # xs)"

definition sort_entries :: "(string \<times> 'a) list \<Rightarrow> (string \<times> 'a) list" where
  "sort_entries kvs = foldr insert_entry kvs []"

text \<open>
  A map with string keys, given its entries (each key once) with the encodings of their
  values: \<open>null\<close> when nil.
\<close>

definition mapEncoder :: "(string \<times> encoded) list option \<Rightarrow> encoded" where
  "mapEncoder m =
     (case m of None \<Rightarrow> Inr ''null'' | Some kvs \<Rightarrow> structEncoder (sort_entries kvs))"

subsection \<open>Property values\<close>

text \<open>
  The values of a property mapping have the empty interface type.  The part of it
  modelled here: nil, booleans, strings, integers, slices and string-keyed maps of such
  values, and \<open>AnyUnsupported\<close> for a value the encoder rejects (a channel, a function).
\<close>

datatype any_value =
    AnyNil
  | AnyBool bool
  | AnyString string
  | AnyInt int
  | AnySlice "any_value list option"
  | AnyMap "(string \<times> any_value) list option"
  | AnyUnsupported

type_synonym properties = "(string \<times> any_value) list option"

definition encode_int :: "int \<Rightarrow> string" where
  "encode_int i = (if i < 0 then ''-'' @ dec (nat (- i)) else dec (nat i))"

fun encode_any :: "any_value \<Rightarrow> encoded" where
  "encode_any AnyNil = Inr ''null''"
| "encode_any (AnyBool b) = Inr (if b then ''true'' else ''false'')"
| "encode_any (AnyString s) = Inr (encode_string s)"
| "encode_any (AnyInt i) = Inr (encode_int i)"
| "encode_any (AnySlice s) = sliceEncoder (map_option (map encode_any) s)"
| "encode_any (AnyMap m) =
     mapEncoder (map_option (map (\<lambda>kv. (fst kv, encode_any (snd kv)))) m)"
| "encode_any AnyUnsupported = Inl UnsupportedTypeError"

definition encode_properties :: "properties \<Rightarrow> encoded" where
  "encode_properties m = encode_any (AnyMap m)"

section \<open>Encoding the objects of the package\<close>

text \<open>
  \<open>Position\<close> implements \<open>json.Marshaler\<close> on the value, so the encoder always calls
  its method and checks the text it returns.
\<close>

definition encode_Position :: "position \<Rightarrow> encoded" where
  "encode_Position p = marshalerEncoder (Inr (Position_MarshalJSON p))"

text \<open>
  \<open>marshalGeoJSONGeometryWithCoordinates\<close> encodes an anonymous struct with the fields
  \<open>type\<close> and \<open>coordinates\<close>; the second argument is the encoding of the coordinates
  by the encoder of their type \<open>C\<close>.
\<close>

definition marshalGeoJSONGeometryWithCoordinates :: "geometry \<Rightarrow> encoded \<Rightarrow> encoded" where
  "marshalGeoJSONGeometryWithCoordinates g c =
     structEncoder [(''type'', Inr (encode_string (Type g))), (''coordinates'', c)]"

definition encode_Positions :: "position slice \<Rightarrow> encoded" where
  "encode_Positions c = sliceEncoder (map_option (map encode_Position) c)"

definition encode_PolygonCoordinates :: "position slice slice \<Rightarrow> encoded" where
  "encode_PolygonCoordinates c = sliceEncoder (map_option (map encode_Positions) c)"

text \<open>
  The \<open>MarshalJSON\<close> methods of the geometries.  \<open>*GeometryCollection\<close> has none:
  \<open>None\<close>.
\<close>

fun geometry_MarshalJSON :: "geometry \<Rightarrow> encoded option" where
  "geometry_MarshalJSON (Point c) =
     Some (marshalGeoJSONGeometryWithCoordinates (Point c) (encode_Position c))"
| "geometry_MarshalJSON (MultiPoint c) =
     Some (marshalGeoJSONGeometryWithCoordinates (MultiPoint c) (encode_Positions c))"
| "geometry_MarshalJSON (LineString c) =
     Some (marshalGeoJSONGeometryWithCoordinates (LineString c) (encode_Positions c))"
| "geometry_MarshalJSON (MultiLineString c) =
     Some (marshalGeoJSONGeometryWithCoordinates (MultiLineString c) (encode_PolygonCoordinates c))"
| "geometry_MarshalJSON (Polygon c) =
     Some (marshalGeoJSONGeometryWithCoordinates (Polygon c) (encode_PolygonCoordinates c))"
| "geometry_MarshalJSON (MultiPolygon c) =
     Some (marshalGeoJSONGeometryWithCoordinates (MultiPolygon c)
       (sliceEncoder (map_option (map encode_PolygonCoordinates) c)))"
| "geometry_MarshalJSON (GeometryCollection gs) = None"

text \<open>
  What the encoder does with a \<open>Geometry\<close>: it calls the method where there is one, and
  otherwise follows the pointer and encodes the slice of interface values behind it.
  (The six other types all have the method, so the last branch is never taken.)
\<close>

fun encode_Geometry :: "geometry \<Rightarrow> encoded" where
  "encode_Geometry (GeometryCollection gs) =
     sliceEncoder (map_option (map (\<lambda>g. interfaceEncoder (map_option encode_Geometry g))) gs)"
| "encode_Geometry g =
     (case geometry_MarshalJSON g of
        Some r \<Rightarrow> marshalerEncoder r
      | None \<Rightarrow> Inl UnsupportedTypeError)"

record feature =
  Geometry :: "geometry option"
  Properties :: properties

definition ToFeature :: "geometry \<Rightarrow> properties \<Rightarrow> feature" where
  "ToFeature g properties = \<lparr>Geometry = Some g, Properties = properties\<rparr>"

definition NewFeature :: "geometry option \<Rightarrow> properties \<Rightarrow> feature" where
  "NewFeature geometry properties = \<lparr>Geometry = geometry, Properties = properties\<rparr>"

definition Feature_Type :: "feature \<Rightarrow> string" where
  "Feature_Type f = ''Feature''"

text \<open>The fields \<open>geometry\<close> and \<open>properties\<close> of a \<open>Feature\<close>, encoded.\<close>

definition Feature_fields :: "feature \<Rightarrow> (string \<times> encoded) list" where
  "Feature_fields f =
     [(''geometry'', interfaceEncoder (map_option encode_Geometry (Geometry f))),
      (''properties'', encode_properties (Properties f))]"

text \<open>
  \<open>(*Feature).MarshalJSON\<close>: an anonymous struct with the field \<open>type\<close> followed by
  the fields of the embedded \<open>*Raw\<close>, a \<open>Feature\<close> stripped of its methods.
\<close>

definition Feature_MarshalJSON :: "feature \<Rightarrow> encoded" where
  "Feature_MarshalJSON f =
     structEncoder ((''type'', Inr (encode_string (Feature_Type f))) # Feature_fields f)"

text \<open>
  The method has a pointer receiver.  The encoder calls it for a \<open>*Feature\<close> and for a
  \<open>Feature\<close> it can take the address of (an element of a slice); a \<open>Feature\<close> held
  in an interface is not addressable, and is encoded as the plain struct it is.
\<close>

definition encode_Feature_addressable :: "feature \<Rightarrow> encoded" where
  "encode_Feature_addressable f = marshalerEncoder (Feature_MarshalJSON f)"

definition encode_Feature_value :: "feature \<Rightarrow> encoded" where
  "encode_Feature_value f = structEncoder (Feature_fields f)"

definition FeatureCollection_Type :: "feature slice \<Rightarrow> string" where
  "FeatureCollection_Type c = ''FeatureCollection''"

definition FeatureCollection_MarshalJSON :: "feature slice \<Rightarrow> encoded" where
  "FeatureCollection_MarshalJSON c =
     structEncoder
       [(''type'', Inr (encode_string (FeatureCollection_Type c))),
        (''features'', sliceEncoder (map_option (map encode_Feature_addressable) c))]"

text \<open>
  The values of the interface \<open>Object\<close>: a geometry, a \<open>Feature\<close> (whose \<open>Type\<close>
  has a value receiver, so that both the struct and a pointer to it implement the
  interface), and a pointer to a \<open>FeatureCollection\<close>.  Pointers are not nil here.
\<close>

datatype object =
    GeometryObject geometry
  | FeatureObject feature
  | FeaturePointer feature
  | FeatureCollectionPointer "feature slice"

fun ToText :: "object \<Rightarrow> encoded" where
  "ToText (GeometryObject g) = encode_Geometry g"
| "ToText (FeatureObject f) = encode_Feature_value f"
| "ToText (FeaturePointer f) = encode_Feature_addressable f"
| "ToText (FeatureCollectionPointer c) = marshalerEncoder (FeatureCollection_MarshalJSON c)"

text \<open>\<open>NewFeatureCollection\<close> returns the slice of its variadic parameter.\<close>

definition NewFeatureCollection :: "feature slice \<Rightarrow> feature slice" where
  "NewFeatureCollection features = features"

section \<open>Feature collections and their backing arrays\<close>

text \<open>
  \<open>FeatureCollection.With\<close> appends to the receiver, and the built-in \<open>append\<close>
  writes into the receiver's backing array when there is room.  To see what that does to
  other slices, arrays live in a store, addressed by their index in it, and a slice is a
  header: the array it points into (\<open>None\<close> for the nil slice), the offset of its first
  element there, its length and its capacity.
\<close>

type_synonym 'a store = "'a list list"

record header =
  arr :: "nat option"
  off :: nat
  hlen :: nat
  hcap :: nat

definition valid :: "'a store \<Rightarrow> header \<Rightarrow> bool" where
  "valid h s =
     (case arr s of
        None \<Rightarrow> hlen s = 0 \<and> hcap s = 0
      | Some a \<Rightarrow> a < length h \<and> hlen s \<le> hcap s \<and> off s + hcap s \<le> length (h ! a))"

definition contents :: "'a store \<Rightarrow> header \<Rightarrow> 'a list" where
  "contents h s =
     (case arr s of None \<Rightarrow> [] | Some a \<Rightarrow> take (hlen s) (drop (off s) (h ! a)))"

text \<open>The slice as the encoder sees it.\<close>

definition view :: "'a store \<Rightarrow> header \<Rightarrow> 'a slice" where
  "view h s = (case arr s of None \<Rightarrow> None | Some a \<Rightarrow> Some (contents h s))"

definition write_at :: "'a list \<Rightarrow> nat \<Rightarrow> 'a list \<Rightarrow> 'a list" where
  "write_at xs i vs = take i xs @ vs @ drop (i + length vs) xs"

text \<open>
  \<open>append(s, vs...)\<close>.  With room for the new elements they are written behind the
  slice in its own array; otherwise a new array is allocated, the old elements and the
  new ones are copied into it, and the rest of it holds the zero value.  How much larger
  than needed the new array is made is a matter of the runtime: \<open>grow\<close>, applied to the
  old capacity and the length needed, stands for that policy.
\<close>

definition append_store ::
  "(nat \<Rightarrow> nat \<Rightarrow> nat) \<Rightarrow> 'a \<Rightarrow> 'a store \<Rightarrow> header \<Rightarrow> 'a list \<Rightarrow> 'a store \<times> header" where
  "append_store grow zero h s vs =
     (let newlen = hlen s + length vs
      in if newlen \<le> hcap s then
           (case arr s of
              None \<Rightarrow> (h, s)
            | Some a \<Rightarrow> (h[a := write_at (h ! a) (off s + hlen s) vs], s\<lparr>hlen := newlen\<rparr>))
         else
           let newcap = max newlen (grow (hcap s) newlen)
           in (h @ [contents h s @ vs @ replicate (newcap - newlen) zero],
               \<lparr>arr = Some (length h), off = 0, hlen = newlen, hcap = newcap\<rparr>))"

text \<open>The zero value of \<open>Feature\<close>: nil geometry, nil properties.\<close>

definition zero_Feature :: feature where
  "zero_Feature = \<lparr>Geometry = None, Properties = None\<rparr>"

text \<open>
  \<open>c.With(features...)\<close>: the elements of the argument slice are read, then appended
  to \<open>c\<close>.
\<close>

definition FeatureCollection_With ::
  "(nat \<Rightarrow> nat \<Rightarrow> nat) \<Rightarrow> feature store \<Rightarrow> header \<Rightarrow> header \<Rightarrow> feature store \<times> header" where
  "FeatureCollection_With grow h c features =
     append_store grow zero_Feature h c (contents h features)"

section \<open>Coordinates a text can hold\<close>

definition finite_Position :: "position \<Rightarrow> bool" where
  "finite_Position p \<longleftrightarrow> is_finite (Longitude p) \<and> is_finite (Latitude p)"

definition finite_Positions :: "position slice \<Rightarrow> bool" where
  "finite_Positions c = list_all finite_Position (elems c)"

definition finite_PolygonCoordinates :: "position slice slice \<Rightarrow> bool" where
  "finite_PolygonCoordinates c = list_all finite_Positions (elems c)"

fun finite_Geometry :: "geometry \<Rightarrow> bool" where
  "finite_Geometry (Point c) = finite_Position c"
| "finite_Geometry (MultiPoint c) = finite_Positions c"
| "finite_Geometry (LineString c) = finite_Positions c"
| "finite_Geometry (MultiLineString c) = finite_PolygonCoordinates c"
| "finite_Geometry (Polygon c) = finite_PolygonCoordinates c"
| "finite_Geometry (MultiPolygon c) = list_all finite_PolygonCoordinates (elems c)"
| "finite_Geometry (GeometryCollection gs) =
     (case gs of
        None \<Rightarrow> True
      | Some xs \<Rightarrow>
          list_all (\<lambda>g. case g of None \<Rightarrow> True | Some g' \<Rightarrow> finite_Geometry g') xs)"

section \<open>Notions for reasoning about the scanner\<close>

text \<open>A scanner that has neither failed nor finished, in a given state and with a given stack.\<close>

definition scanning :: "scan_state \<Rightarrow> parse_state list \<Rightarrow> scanner" where
  "scanning st S = \<lparr>step = st, parseState = S, err = False, endTop = False\<rparr>"

text \<open>The scanner when the value that was begun over the stack \<open>S\<close> is complete.\<close>

definition finished :: "parse_state list \<Rightarrow> scanner" where
  "finished S =
     (if S = [] then \<lparr>step = stateEndTop, parseState = [], err = False, endTop = True\<rparr>
      else scanning stateEndValue S)"

text \<open>
  The compaction loop, started in \<open>s\<close>, copies the text \<open>t\<close> as it is and is then in
  \<open>s'\<close>, whatever follows.
\<close>

definition copies :: "scanner \<Rightarrow> string \<Rightarrow> scanner \<Rightarrow> bool" where
  "copies s t s' \<longleftrightarrow>
     (\<forall>r. compact_loop s 0 (t @ r) = (case compact_loop s' 0 r of (out, sf) \<Rightarrow> (t @ out, sf)))"

text \<open>Bytes that the loop copies wherever they stand, never replacing them by an escape.\<close>

definition plain :: "char \<Rightarrow> bool" where
  "plain c \<longleftrightarrow> c \<noteq> CHR ''<'' \<and> c \<noteq> CHR ''>'' \<and> c \<noteq> CHR ''&'' \<and> c \<noteq> CHR 0xE2"

text \<open>The states in which a value may begin.\<close>

definition begins :: "scan_state \<Rightarrow> bool" where
  "begins st \<longleftrightarrow> st = stateBeginValue \<or> st = stateBeginValueOrEmpty"

text \<open>
  The states in which a value may be complete: after a string, a literal or a closing bracket,
  and inside a number that needs no further digit.
\<close>

definition ended :: "scan_state \<Rightarrow> bool" where
  "ended st \<longleftrightarrow> st = stateEndValue \<or> st = state0 \<or> st = state1 \<or> st = stateDot0 \<or> st = stateE0"

text \<open>
  A text that is copied as one value inside an array or an object, nesting at most \<open>k\<close>
  arrays and objects of its own.
\<close>

definition scans :: "nat \<Rightarrow> string \<Rightarrow> bool" where
  "scans k t \<longleftrightarrow>
     (\<forall>st S. begins st \<longrightarrow> S \<noteq> [] \<longrightarrow> length S + k \<le> maxNestingDepth \<longrightarrow>
        (\<exists>st'. ended st' \<and> copies (scanning st S) t (scanning st' S)))"

text \<open>The same for a text that ends with a closing bracket, which may also stand at top level.\<close>

definition scans_top :: "nat \<Rightarrow> string \<Rightarrow> bool" where
  "scans_top k t \<longleftrightarrow>
     (\<forall>st S. begins st \<longrightarrow> length S + k \<le> maxNestingDepth \<longrightarrow>
        copies (scanning st S) t (finished S))"

text \<open>Texts joined by commas.\<close>

fun join :: "string list \<Rightarrow> string" where
  "join [] = []"
| "join (t # ts) = t @ concat (map ((#) CHR '','') ts)"

text \<open>A member of an object: the key as a string, a colon, the text of the value.\<close>

definition member :: "string \<times> string \<Rightarrow> string" where
  "member kt = encode_string (fst kt) @ '':'' @ snd kt"

text \<open>Bytes outside ASCII.\<close>

definition high :: "char \<Rightarrow> bool" where
  "high c \<longleftrightarrow> (0x80 :: nat) \<le> of_char c"

text \<open>The ASCII bytes that \<open>appendString\<close> writes unescaped.\<close>

definition safe :: "char \<Rightarrow> bool" where
  \<open>safe c \<longleftrightarrow> (0x20 :: nat) \<le> of_char c \<and> of_char c < (0x80 :: nat)
     \<and> c \<notin> set [CHR ''"'', CHR 0x5C, CHR ''<'', CHR ''>'', CHR ''&'']\<close>

text \<open>Continuation bytes of UTF-8.\<close>

definition cont :: "char \<Rightarrow> bool" where
  "cont c \<longleftrightarrow> in_range c 0x80 0xBF"

text \<open>An encoding that succeeds with a text satisfying \<open>P\<close>.\<close>

definition yields :: "(string \<Rightarrow> bool) \<Rightarrow> encoded \<Rightarrow> bool" where
  "yields P r = (case r of Inl e \<Rightarrow> False | Inr t \<Rightarrow> P t)"

text \<open>The largest of a list of numbers, 0 for none.\<close>

definition largest :: "nat list \<Rightarrow> nat" where
  "largest ns = foldr max ns 0"

text \<open>A bound on how deeply arrays and objects nest in the text of a geometry.\<close>

fun nesting_Geometry :: "geometry \<Rightarrow> nat" where
  "nesting_Geometry (Point c) = 2"
| "nesting_Geometry (MultiPoint c) = 3"
| "nesting_Geometry (LineString c) = 3"
| "nesting_Geometry (MultiLineString c) = 4"
| "nesting_Geometry (Polygon c) = 4"
| "nesting_Geometry (MultiPolygon c) = 5"
| "nesting_Geometry (GeometryCollection gs) =
     (case gs of
        None \<Rightarrow> 0
      | Some xs \<Rightarrow>
          Suc (largest (map (\<lambda>g. case g of None \<Rightarrow> 0 | Some g' \<Rightarrow> nesting_Geometry g') xs)))"

text \<open>Property values without a value the encoder rejects.\<close>

fun supported :: "any_value \<Rightarrow> bool" where
  "supported AnyUnsupported = False"
| "supported (AnySlice s) = (case s of None \<Rightarrow> True | Some xs \<Rightarrow> list_all supported xs)"
| "supported (AnyMap m) =
     (case m of None \<Rightarrow> True | Some kvs \<Rightarrow> list_all (\<lambda>kv. supported (snd kv)) kvs)"
| "supported v = True"

text \<open>How deeply slices and maps nest in a property value.\<close>

fun nesting_any :: "any_value \<Rightarrow> nat" where
  "nesting_any (AnySlice s) =
     (case s of None \<Rightarrow> 0 | Some xs \<Rightarrow> Suc (largest (map nesting_any xs)))"
| "nesting_any (AnyMap m) =
     (case m of None \<Rightarrow> 0 | Some kvs \<Rightarrow> Suc (largest (map (\<lambda>kv. nesting_any (snd kv)) kvs)))"
| "nesting_any v = 0"

text \<open>A bound on the nesting of the text of a feature.\<close>

definition nesting_Feature :: "feature \<Rightarrow> nat" where
  "nesting_Feature f =
     Suc (max (case Geometry f of None \<Rightarrow> 0 | Some g \<Rightarrow> nesting_Geometry g)
              (nesting_any (AnyMap (Properties f))))"

text \<open>A feature with finite coordinates and supported property values.\<close>

definition representable_Feature :: "feature \<Rightarrow> bool" where
  "representable_Feature f \<longleftrightarrow>
     (case Geometry f of None \<Rightarrow> True | Some g \<Rightarrow> finite_Geometry g)
     \<and> supported (AnyMap (Properties f))"

text \<open>
  The objects that \<open>ToText\<close> is shown to encode: finite coordinates, supported property
  values, and, where the text passes through the scanner, nesting within its limit.
\<close>

fun encodable :: "object \<Rightarrow> bool" where
  "encodable (GeometryObject g) = finite_Geometry g"
| "encodable (FeatureObject f) = representable_Feature f"
| "encodable (FeaturePointer f) =
     (representable_Feature f \<and> nesting_Feature f \<le> maxNestingDepth)"
| "encodable (FeatureCollectionPointer c) =
     (list_all representable_Feature (elems c)
      \<and> Suc (Suc (largest (map nesting_Feature (elems c)))) \<le> maxNestingDepth)"

section \<open>Properties of the constructors\<close>

lemma len_simps: "len None = 0" "len (Some xs) = length xs"
  by (simp_all add: len_def elems_def)

lemma float64_eq_sym: "float64_eq a b \<Longrightarrow> float64_eq b a"
  by (cases a; cases b) (auto simp: Let_def min.commute)

lemma Position_eq_sym: "Position_eq p q \<Longrightarrow> Position_eq q p"
  by (simp add: Position_eq_def float64_eq_sym)

lemma NewLinearRing_eq:
  "NewLinearRing p0 p1 p2 p3 rest =
     (if Position_eq (last (p0 # p1 # p2 # p3 # elems rest)) p0
      then Inr (Some (p0 # p1 # p2 # p3 # elems rest))
      else Inl (InvalidRing p0 (last (p0 # p1 # p2 # p3 # elems rest))))"
proof -
  let ?xs = "p0 # p1 # p2 # p3 # elems rest"
  have "?xs ! (length ?xs - 1) = last ?xs"
    by (rule last_conv_nth [symmetric]) simp
  then show ?thesis
    by (simp add: NewLinearRing_def make_slice_def append_slice_def len_def elems_def
        del: last.simps)
qed

text \<open>
  C2.  \<open>NewLinearRing(p0, p1, p2, p3, rest...)\<close> panics with the invalid-ring condition
  when the last supplied position differs from \<open>p0\<close> under \<open>==\<close>; when it equals
  \<open>p0\<close>, the call returns the ring of the supplied positions in order, whose first and
  last elements are equal and whose length is 4 plus the number of rest positions.
\<close>

theorem NewLinearRing_closed:
  "(\<not> Position_eq (last (p0 # p1 # p2 # p3 # elems rest)) p0 \<longrightarrow>
      (\<exists>q. NewLinearRing p0 p1 p2 p3 rest = Inl (InvalidRing p0 q)))
   \<and> (Position_eq (last (p0 # p1 # p2 # p3 # elems rest)) p0 \<longrightarrow>
      (\<exists>ring. NewLinearRing p0 p1 p2 p3 rest = Inr ring
         \<and> elems ring = p0 # p1 # p2 # p3 # elems rest
         \<and> Position_eq (hd (elems ring)) (last (elems ring))
         \<and> len ring = 4 + len rest))"
  by (simp add: NewLinearRing_eq elems_def len_def Position_eq_sym del: last.simps)


theorem NewLinearRing_closed_witness:
  "(\<exists>ring. NewLinearRing \<lparr>Longitude = f0, Latitude = f0\<rparr> \<lparr>Longitude = f4, Latitude = f0\<rparr>
        \<lparr>Longitude = f4, Latitude = f4\<rparr> \<lparr>Longitude = f0, Latitude = f4\<rparr>
        (variadic [\<lparr>Longitude = f0, Latitude = f0\<rparr>]) = Inr ring \<and> len ring = 5)
   \<and> (\<exists>q. NewLinearRing \<lparr>Longitude = f0, Latitude = f0\<rparr> \<lparr>Longitude = f4, Latitude = f0\<rparr>
        \<lparr>Longitude = f4, Latitude = f4\<rparr> \<lparr>Longitude = f0, Latitude = f4\<rparr> (variadic [])
          = Inl (InvalidRing \<lparr>Longitude = f0, Latitude = f0\<rparr> q))"
proof -
  let ?a = "\<lparr>Longitude = f0, Latitude = f0\<rparr>" and ?b = "\<lparr>Longitude = f4, Latitude = f0\<rparr>"
  let ?c = "\<lparr>Longitude = f4, Latitude = f4\<rparr>" and ?d = "\<lparr>Longitude = f0, Latitude = f4\<rparr>"
  have closed: "Position_eq (last (?a # ?b # ?c # ?d # elems (variadic [?a]))) ?a"
    by (simp add: Position_eq_def variadic_def elems_def f0_def)
  have opened: "\<not> Position_eq (last (?a # ?b # ?c # ?d # elems (variadic []))) ?a"
    by (simp add: Position_eq_def variadic_def elems_def f0_def f4_def)
  have "len (variadic [?a]) = 1"
    by (simp add: variadic_def len_simps)
  with closed opened
    NewLinearRing_closed [of ?a ?b ?c ?d "variadic [?a]"]
    NewLinearRing_closed [of ?a ?b ?c ?d "variadic []"]
  show ?thesis by auto
qed

text \<open>
  Under \<open>==\<close> a position with a coordinate that is not a number differs from itself,
  so no ring can start with one.
\<close>

lemma NewLinearRing_NaN_panics:
  assumes "Longitude p0 = NaN \<or> Latitude p0 = NaN"
  shows "\<exists>q. NewLinearRing p0 p1 p2 p3 rest = Inl (InvalidRing p0 q)"
proof -
  have "\<not> float64_eq x NaN" for x
    by (cases x) simp_all
  with assms have "\<not> Position_eq q p0" for q
    by (auto simp: Position_eq_def)
  then show ?thesis
    by (simp add: NewLinearRing_eq del: last.simps)
qed

text \<open>
  C7.  The builders of coordinate arrays keep their arguments in input order:
  \<open>NewLineStringCoordinates(first, second, rest...)\<close> is the sequence \<open>first\<close>,
  \<open>second\<close>, \<open>rest...\<close>, of length 2 plus the number of rest positions, and
  \<open>NewPolygonCoordinates(outerBoundary, holes...)\<close> is the outer boundary followed by
  the holes in order, of length 1 plus the number of holes.
\<close>

theorem coordinate_builders_keep_order:
  "NewLineStringCoordinates first second rest = Some (first # second # elems rest)
   \<and> len (NewLineStringCoordinates first second rest) = 2 + len rest
   \<and> NewPolygonCoordinates outerBoundary holes = Some (outerBoundary # elems holes)
   \<and> len (NewPolygonCoordinates outerBoundary holes) = 1 + len holes"
  by (simp add: NewLineStringCoordinates_def NewPolygonCoordinates_def make_slice_def
      append_slice_def len_def elems_def)

theorem coordinate_builders_keep_order_witness:
  "NewLineStringCoordinates \<lparr>Longitude = f0, Latitude = f0\<rparr> \<lparr>Longitude = f1, Latitude = f2\<rparr>
       (variadic [\<lparr>Longitude = f4, Latitude = f4\<rparr>])
     = Some [\<lparr>Longitude = f0, Latitude = f0\<rparr>, \<lparr>Longitude = f1, Latitude = f2\<rparr>,
             \<lparr>Longitude = f4, Latitude = f4\<rparr>]
   \<and> NewPolygonCoordinates (Some [\<lparr>Longitude = f0, Latitude = f0\<rparr>]) (variadic [None, Some []])
     = Some [Some [\<lparr>Longitude = f0, Latitude = f0\<rparr>], None, Some []]"
  using coordinate_builders_keep_order
    [of "\<lparr>Longitude = f0, Latitude = f0\<rparr>" "\<lparr>Longitude = f1, Latitude = f2\<rparr>"
        "variadic [\<lparr>Longitude = f4, Latitude = f4\<rparr>]"
        "Some [\<lparr>Longitude = f0, Latitude = f0\<rparr>]" "variadic [None, Some []]"]
  by (simp add: variadic_def elems_def)

text \<open>
  C10.  \<open>NewMultiPoint\<close>, \<open>NewMultiLineString\<close> and \<open>NewMultiPolygon\<close> called with
  no argument return a geometry whose coordinate sequence is empty; there is no lower
  bound on the number of elements.  \<open>NewLineString\<close> takes two positions before its
  variadic parameter and \<open>NewLinearRing\<close> four, so their results have at least two and
  at least four positions.
\<close>

theorem multi_constructors_accept_no_argument:
  "(\<exists>c. NewMultiPoint (variadic []) = MultiPoint c \<and> len c = 0)
   \<and> (\<exists>c. NewMultiLineString (variadic []) = MultiLineString c \<and> len c = 0)
   \<and> (\<exists>c. NewMultiPolygon (variadic []) = MultiPolygon c \<and> len c = 0)
   \<and> (\<exists>c. NewLineString c0 c1 cn = LineString c \<and> 2 \<le> len c)
   \<and> (case NewLinearRing c0 c1 c2 c3 cn of Inl e \<Rightarrow> True | Inr ring \<Rightarrow> 4 \<le> len ring)"
  by (simp add: NewMultiPoint_def NewMultiLineString_def NewMultiPolygon_def NewLineString_def
      NewLineStringCoordinates_def NewLinearRing_eq variadic_def make_slice_def append_slice_def
      len_def elems_def del: last.simps)

theorem multi_constructors_accept_no_argument_witness:
  "NewMultiPoint (variadic []) = MultiPoint None
   \<and> NewMultiLineString (variadic []) = MultiLineString None
   \<and> NewMultiPolygon (variadic []) = MultiPolygon None
   \<and> NewLineString \<lparr>Longitude = f0, Latitude = f0\<rparr> \<lparr>Longitude = f1, Latitude = f2\<rparr> (variadic [])
      = LineString (Some [\<lparr>Longitude = f0, Latitude = f0\<rparr>, \<lparr>Longitude = f1, Latitude = f2\<rparr>])"
  using multi_constructors_accept_no_argument
    [of "\<lparr>Longitude = f0, Latitude = f0\<rparr>" "\<lparr>Longitude = f1, Latitude = f2\<rparr>" "variadic []"
        "\<lparr>Longitude = f0, Latitude = f0\<rparr>" "\<lparr>Longitude = f0, Latitude = f0\<rparr>"]
  by (simp add: NewMultiPoint_def NewMultiLineString_def NewMultiPolygon_def NewLineString_def
      NewLineStringCoordinates_def variadic_def make_slice_def append_slice_def len_def elems_def)


section \<open>Texts of concrete objects\<close>

lemmas scan_defs =
  compact_def newScanner_def scan_step_def stateBeginValue_fn_def stateEndValue_fn_def
  stateBeginString_fn_def state0_fn_def stateESign_fn_def stateEndTop_fn_def goto_def
  expect_def expect_hex_def pushParseState_def popParseState_def scan_error_def scan_eof_def
  isSpace_def is_digit_def is_digit19_def is_hex_def skips_def maxNestingDepth_def

lemmas fmt_defs =
  f0_def f1_def f2_def f4_def millionths_def round_half_even_def dec.simps pad6_def
  digit_char_def Position_MarshalJSON_def

lemmas enc_defs =
  encode_string_def escape_ascii_def hex_def marshalerEncoder_def sliceEncoder_def
  interfaceEncoder_def encode_member_def structEncoder_def sort_entries_def mapEncoder_def
  encode_int_def encode_properties_def encode_Position_def
  marshalGeoJSONGeometryWithCoordinates_def encode_Positions_def encode_PolygonCoordinates_def
  Feature_Type_def Feature_fields_def Feature_MarshalJSON_def encode_Feature_addressable_def
  encode_Feature_value_def FeatureCollection_Type_def FeatureCollection_MarshalJSON_def

lemmas ctor_defs =
  NewPoint_def NewMultiPoint_def NewLineString_def NewMultiLineString_def NewPolygon_def
  NewMultiPolygon_def NewGeometryCollection_def NewFeature_def ToFeature_def
  NewFeatureCollection_def NewLineStringCoordinates_def NewPolygonCoordinates_def
  variadic_def make_slice_def append_slice_def elems_def len_def

text \<open>
  C1.  The text of a \<open>GeometryCollection\<close> holding the point (1, 2) is a bare array
  of the point's text: there is no enclosing object, no \<open>type\<close> and no
  \<open>geometries\<close> key.
\<close>

theorem GeometryCollection_text_is_array:
  \<open>ToText (GeometryObject (NewGeometryCollection
       (variadic [Some (NewPoint \<lparr>Longitude = f1, Latitude = f2\<rparr>)])))
   = Inr ''[{"type":"Point","coordinates":[1.000000,2.000000]}]''\<close>
  by (simp add: ctor_defs enc_defs fmt_defs scan_defs)

text \<open>Whatever the collection holds, its text is \<open>null\<close> or an array, never an object.\<close>

lemma GeometryCollection_text_never_object:
  assumes "ToText (GeometryObject (NewGeometryCollection gs)) = Inr t"
  shows "t = ''null'' \<or> (\<exists>u. t = ''['' @ u @ '']'')"
  using assms
  by (auto simp: NewGeometryCollection_def sliceEncoder_def split: option.splits sum.splits)

text \<open>
  C3.  The text of the collection \<open>NewFeatureCollection()\<close> has \<open>null\<close>, not an
  empty array, under \<open>features\<close>: the variadic parameter of a call without arguments
  is the nil slice.
\<close>

theorem FeatureCollection_of_no_features_text:
  \<open>ToText (FeatureCollectionPointer (NewFeatureCollection (variadic [])))
   = Inr ''{"type":"FeatureCollection","features":null}''\<close>
  by (simp add: ctor_defs enc_defs scan_defs)

text \<open>An empty slice that is not nil is written as the empty array.\<close>

lemma FeatureCollection_of_empty_slice_text:
  \<open>ToText (FeatureCollectionPointer (NewFeatureCollection (Some [])))
   = Inr ''{"type":"FeatureCollection","features":[]}''\<close>
  by (simp add: ctor_defs enc_defs scan_defs)

text \<open>
  C5.  \<open>ToText(NewPoint(Position{1, 2}).ToFeature(map[string]any{"name": "x"}))\<close>:
  the \<open>Feature\<close> that \<open>ToFeature\<close> returns is passed as it is, \<open>MarshalJSON\<close> is
  not called for it, and the text has no \<open>type\<close> member.
\<close>

theorem Feature_value_text_lacks_type:
  \<open>ToText (FeatureObject (ToFeature (NewPoint \<lparr>Longitude = f1, Latitude = f2\<rparr>)
       (Some [(''name'', AnyString ''x'')])))
   = Inr ''{"geometry":{"type":"Point","coordinates":[1.000000,2.000000]},"properties":{"name":"x"}}''\<close>
  by (simp add: ctor_defs enc_defs fmt_defs scan_defs)

text \<open>Through a pointer to the same \<open>Feature\<close> the method is called.\<close>

lemma Feature_pointer_text:
  \<open>ToText (FeaturePointer (ToFeature (NewPoint \<lparr>Longitude = f1, Latitude = f2\<rparr>)
       (Some [(''name'', AnyString ''x'')])))
   = Inr ''{"type":"Feature","geometry":{"type":"Point","coordinates":[1.000000,2.000000]},"properties":{"name":"x"}}''\<close>
  by (simp add: ctor_defs enc_defs fmt_defs scan_defs)

text \<open>
  C6.  \<open>Type()\<close> of a \<open>GeometryCollection\<close> is \<open>GeometryCollection\<close>, but its
  text, here that of an empty collection, is an array and has no \<open>type\<close> member.
\<close>

theorem GeometryCollection_text_lacks_type:
  \<open>Type (NewGeometryCollection (Some [])) = ''GeometryCollection''
   \<and> ToText (GeometryObject (NewGeometryCollection (Some []))) = Inr ''[]''
   \<and> ToText (GeometryObject (NewGeometryCollection (variadic []))) = Inr ''null''\<close>
  by (simp add: ctor_defs enc_defs)

text \<open>
  The six other geometries have a \<open>MarshalJSON\<close> method, and it encodes a struct whose
  first field, \<open>type\<close>, holds \<open>Type()\<close>.
\<close>

lemma geometry_MarshalJSON_type:
  "geometry_MarshalJSON g = Some r \<Longrightarrow>
     \<exists>c. r = structEncoder [(''type'', Inr (encode_string (Type g))), (''coordinates'', c)]"
  by (cases g) (auto simp: marshalGeoJSONGeometryWithCoordinates_def)


text \<open>
  The nil slice that \<open>NewMultiPoint()\<close> stores is written as \<open>null\<close> as well.
\<close>

lemma MultiPoint_of_no_positions_text:
  \<open>ToText (GeometryObject (NewMultiPoint (variadic [])))
   = Inr ''{"type":"MultiPoint","coordinates":null}''\<close>
  by (simp add: ctor_defs enc_defs scan_defs)

section \<open>Appending to a feature collection\<close>

lemma length_contents: "valid h s \<Longrightarrow> length (contents h s) = hlen s"
  by (auto simp: valid_def contents_def split: option.splits)

lemma take_drop_write_at:
  assumes "i + n \<le> length xs"
  shows "take (n + length vs) (drop i (write_at xs (i + n) vs)) = take n (drop i xs) @ vs"
    and "take n (drop i (write_at xs (i + n) vs)) = take n (drop i xs)"
  using assms by (simp_all add: write_at_def min_absorb2 drop_take)

lemma length_write_at:
  "i + length vs \<le> length xs \<Longrightarrow> length (write_at xs i vs) = length xs"
  by (simp add: write_at_def)

lemma append_store_result:
  assumes v: "valid h s" and a: "append_store grow zero h s vs = (h', r)"
  shows "contents h' r = contents h s @ vs \<and> hlen r = hlen s + length vs
         \<and> contents h' s = contents h s \<and> view h' s = view h s \<and> valid h' s \<and> valid h' r"
proof (cases "hlen s + length vs \<le> hcap s")
  case True
  show ?thesis
  proof (cases "arr s")
    case None
    with True v a show ?thesis
      by (auto simp: append_store_def valid_def contents_def view_def)
  next
    case (Some b)
    with True v have b: "b < length h" and fit: "off s + hlen s + length vs \<le> length (h ! b)"
      by (auto simp: valid_def)
    from True Some a have h': "h' = h[b := write_at (h ! b) (off s + hlen s) vs]"
      and r: "r = s\<lparr>hlen := hlen s + length vs\<rparr>"
      by (auto simp: append_store_def)
    from fit have le: "off s + hlen s \<le> length (h ! b)" by simp
    have new: "h' ! b = write_at (h ! b) (off s + hlen s) vs"
      using b h' by simp
    have len: "length (h' ! b) = length (h ! b)"
      using fit new by (simp add: length_write_at)
    show ?thesis
      using Some v True b len take_drop_write_at [OF le, of vs]
      by (simp add: contents_def view_def valid_def r new h')
  qed
next
  case False
  with a have h': "h' = h @ [contents h s @ vs @ replicate (max (hlen s + length vs) (grow (hcap s) (hlen s + length vs)) - (hlen s + length vs)) zero]"
    and r: "r = \<lparr>arr = Some (length h), off = 0, hlen = hlen s + length vs, hcap = max (hlen s + length vs) (grow (hcap s) (hlen s + length vs))\<rparr>"
    by (auto simp: append_store_def Let_def)
  have old: "\<And>b. b < length h \<Longrightarrow> h' ! b = h ! b"
    by (simp add: h' nth_append)
  show ?thesis
    using v length_contents [OF v] old
    by (auto simp: contents_def view_def valid_def r h' nth_append split: option.splits)
qed


text \<open>
  C4.  For a collection \<open>c\<close> and a slice of features \<open>fs\<close>, \<open>c.With(fs...)\<close>
  returns a collection holding the features of \<open>c\<close> in order followed by those of
  \<open>fs\<close> in order, so of length \<open>len(c) + len(fs)\<close>; and \<open>c\<close> holds afterwards
  what it held before, also when the result shares its backing array.
\<close>

theorem With_appends_and_keeps_receiver:
  assumes "valid h c" and "valid h fs" and "FeatureCollection_With grow h c fs = (h', r)"
  shows "contents h' r = contents h c @ contents h fs
         \<and> length (contents h' r) = length (contents h c) + length (contents h fs)
         \<and> hlen r = hlen c + hlen fs
         \<and> contents h' c = contents h c \<and> view h' c = view h c"
  using append_store_result [of h c grow zero_Feature "contents h fs" h' r] assms
  by (simp add: FeatureCollection_With_def length_contents)

theorem With_appends_and_keeps_receiver_witness:
  "valid [[zero_Feature, zero_Feature\<lparr>Properties := Some []\<rparr>, zero_Feature, zero_Feature],
          [zero_Feature\<lparr>Properties := Some [(''name'', AnyString ''x'')]\<rparr>]]
     \<lparr>arr = Some 0, off = 0, hlen = 2, hcap = 4\<rparr>
   \<and> valid [[zero_Feature, zero_Feature\<lparr>Properties := Some []\<rparr>, zero_Feature, zero_Feature],
          [zero_Feature\<lparr>Properties := Some [(''name'', AnyString ''x'')]\<rparr>]]
     \<lparr>arr = Some 1, off = 0, hlen = 1, hcap = 1\<rparr>
   \<and> contents
        [[zero_Feature, zero_Feature\<lparr>Properties := Some []\<rparr>,
          zero_Feature\<lparr>Properties := Some [(''name'', AnyString ''x'')]\<rparr>, zero_Feature],
         [zero_Feature\<lparr>Properties := Some [(''name'', AnyString ''x'')]\<rparr>]]
        \<lparr>arr = Some 0, off = 0, hlen = 3, hcap = 4\<rparr>
      = [zero_Feature, zero_Feature\<lparr>Properties := Some []\<rparr>,
         zero_Feature\<lparr>Properties := Some [(''name'', AnyString ''x'')]\<rparr>]
   \<and> contents
        [[zero_Feature, zero_Feature\<lparr>Properties := Some []\<rparr>,
          zero_Feature\<lparr>Properties := Some [(''name'', AnyString ''x'')]\<rparr>, zero_Feature],
         [zero_Feature\<lparr>Properties := Some [(''name'', AnyString ''x'')]\<rparr>]]
        \<lparr>arr = Some 0, off = 0, hlen = 2, hcap = 4\<rparr>
      = [zero_Feature, zero_Feature\<lparr>Properties := Some []\<rparr>]"
proof -
  let ?x = "zero_Feature\<lparr>Properties := Some [(''name'', AnyString ''x'')]\<rparr>"
  let ?h = "[[zero_Feature, zero_Feature\<lparr>Properties := Some []\<rparr>, zero_Feature, zero_Feature], [?x]]"
  let ?h' = "[[zero_Feature, zero_Feature\<lparr>Properties := Some []\<rparr>, ?x, zero_Feature], [?x]]"
  let ?c = "\<lparr>arr = Some 0, off = 0, hlen = 2, hcap = 4\<rparr>"
  let ?fs = "\<lparr>arr = Some 1, off = 0, hlen = 1, hcap = 1\<rparr>"
  let ?r = "\<lparr>arr = Some 0, off = 0, hlen = 3, hcap = 4\<rparr>"
  have c: "valid ?h ?c" and fs: "valid ?h ?fs"
    by (simp_all add: valid_def)
  have run: "FeatureCollection_With (\<lambda>old needed. 2 * old) ?h ?c ?fs = (?h', ?r)"
    by (simp add: FeatureCollection_With_def append_store_def contents_def write_at_def)
  have before: "contents ?h ?c = [zero_Feature, zero_Feature\<lparr>Properties := Some []\<rparr>]"
    and added: "contents ?h ?fs = [?x]"
    by (simp_all add: contents_def)
  from With_appends_and_keeps_receiver [OF c fs run] c fs before added
  show ?thesis by simp
qed

text \<open>
  What is not kept is an earlier result that shares the receiver's array: after
  \<open>d := c.With(x)\<close>, the call \<open>c.With(y)\<close> writes \<open>y\<close> where \<open>d\<close> holds
  \<open>x\<close>.
\<close>

lemma With_overwrites_earlier_result:
  fixes x y :: feature and grow :: "nat \<Rightarrow> nat \<Rightarrow> nat"
  defines "h \<equiv> [[zero_Feature, zero_Feature], [x], [y]]"
    and "c \<equiv> \<lparr>arr = Some 0, off = 0, hlen = 1, hcap = 2\<rparr>"
  shows "case FeatureCollection_With grow h c \<lparr>arr = Some 1, off = 0, hlen = 1, hcap = 1\<rparr> of
           (h1, d) \<Rightarrow>
             (case FeatureCollection_With grow h1 c \<lparr>arr = Some 2, off = 0, hlen = 1, hcap = 1\<rparr> of
                (h2, e) \<Rightarrow>
                  contents h1 d = [zero_Feature, x] \<and> contents h2 d = [zero_Feature, y]
                  \<and> contents h2 e = [zero_Feature, y] \<and> contents h2 c = [zero_Feature])"
  by (simp add: h_def c_def FeatureCollection_With_def append_store_def contents_def write_at_def)

section \<open>Texts the scanner accepts\<close>

subsection \<open>Copying\<close>

lemma copies_Nil: "copies s [] s"
  by (simp add: copies_def)

lemma copies_append: "copies s t s' \<Longrightarrow> copies s' u s'' \<Longrightarrow> copies s (t @ u) s''"
  by (simp add: copies_def split: prod.splits)

lemma copies_Cons: "copies s [c] s' \<Longrightarrow> copies s' u s'' \<Longrightarrow> copies s (c # u) s''"
  using copies_append [of s "[c]" s' u s''] by simp

lemma copies_char:
  "plain c \<Longrightarrow> scan_step s c = (v, s') \<Longrightarrow> \<not> skips v \<Longrightarrow> copies s [c] s'"
  by (simp add: copies_def plain_def skips_def split: prod.splits)

lemma compact_copies: "copies newScanner t (finished []) \<Longrightarrow> compact t = Some t"
  using spec [of "\<lambda>r. compact_loop newScanner 0 (t @ r) = (case compact_loop (finished []) 0 r of (out, sf) \<Rightarrow> (t @ out, sf))" "[]"]
  by (simp add: copies_def compact_def finished_def scan_eof_def)

subsection \<open>Numbers\<close>

lemma digit_char_cases:
  "d < 10 \<Longrightarrow> digit_char d \<in> set ''0123456789''"
proof -
  assume "d < 10"
  then have "d = 0 \<or> d = 1 \<or> d = 2 \<or> d = 3 \<or> d = 4 \<or> d = 5 \<or> d = 6 \<or> d = 7 \<or> d = 8 \<or> d = 9"
    by arith
  then show ?thesis
    by (auto simp: digit_char_def)
qed

lemma is_digit_digit_char: "d < 10 \<Longrightarrow> is_digit (digit_char d)"
  using digit_char_cases by (simp add: is_digit_def)

lemma is_digit19_digit_char: "0 < d \<Longrightarrow> d < 10 \<Longrightarrow> is_digit19 (digit_char d)"
proof -
  assume "0 < d" "d < 10"
  then have "d = 1 \<or> d = 2 \<or> d = 3 \<or> d = 4 \<or> d = 5 \<or> d = 6 \<or> d = 7 \<or> d = 8 \<or> d = 9"
    by arith
  then show ?thesis
    by (auto simp: digit_char_def is_digit19_def)
qed

lemma is_digit19_is_digit: "is_digit19 c \<Longrightarrow> is_digit c"
  by (auto simp: is_digit19_def is_digit_def)

lemma dec_positive:
  "0 < n \<Longrightarrow> \<exists>d ds. dec n = d # ds \<and> is_digit19 d \<and> list_all is_digit ds"
proof (induction n rule: dec.induct)
  case (1 n)
  show ?case
  proof (cases "n < 10")
    case True
    with "1.prems" show ?thesis
      by (simp add: dec.simps [of n] is_digit19_digit_char)
  next
    case False
    then have "0 < n div 10" by simp
    with "1.IH" False obtain d ds where "dec (n div 10) = d # ds" "is_digit19 d" "list_all is_digit ds"
      by blast
    with False show ?thesis
      by (simp add: dec.simps [of n] is_digit_digit_char)
  qed
qed

lemma dec_0: "dec 0 = ''0''"
  by (simp add: dec.simps digit_char_def)

lemma pad6_digits: "\<exists>d ds. pad6 n = d # ds \<and> is_digit d \<and> list_all is_digit ds"
  by (simp add: pad6_def is_digit_digit_char)

lemma digit_state1: "is_digit c \<Longrightarrow> copies (scanning state1 S) [c] (scanning state1 S)"
  by (rule copies_char [where v = scanContinue])
     (auto simp: plain_def is_digit_def scan_step_def scanning_def goto_def skips_def)

lemma digits_state1:
  "list_all is_digit ds \<Longrightarrow> copies (scanning state1 S) ds (scanning state1 S)"
  by (induction ds) (auto simp: copies_Nil intro: copies_Cons digit_state1)

lemma digit_stateDot0: "is_digit c \<Longrightarrow> copies (scanning stateDot0 S) [c] (scanning stateDot0 S)"
  by (rule copies_char [where v = scanContinue])
     (auto simp: plain_def is_digit_def scan_step_def scanning_def goto_def skips_def)

lemma digits_stateDot0:
  "list_all is_digit ds \<Longrightarrow> copies (scanning stateDot0 S) ds (scanning stateDot0 S)"
  by (induction ds) (auto simp: copies_Nil intro: copies_Cons digit_stateDot0)

lemma digit_stateDot: "is_digit c \<Longrightarrow> copies (scanning stateDot S) [c] (scanning stateDot0 S)"
  by (rule copies_char [where v = scanContinue])
     (auto simp: plain_def is_digit_def scan_step_def scanning_def goto_def skips_def)

lemma digit19_facts:
  "is_digit19 c \<Longrightarrow> plain c \<and> \<not> isSpace c \<and> c \<notin> set ''{}[]-0tfn'' \<and> c \<noteq> CHR 0x22"
  by (auto simp: is_digit19_def plain_def isSpace_def)

lemma stateBeginValue_fn_digit19:
  "is_digit19 c \<Longrightarrow> stateBeginValue_fn (scanning st S) c = (scanBeginLiteral, scanning state1 S)"
  using digit19_facts [of c]
  by (simp add: stateBeginValue_fn_def scanning_def goto_def)

lemma first_digit:
  assumes "is_digit19 c" and "begins st \<or> st = stateNeg"
  shows "copies (scanning st S) [c] (scanning state1 S)"
proof -
  have space: "\<not> isSpace c" and bracket: "c \<noteq> CHR '']''" and zero: "c \<noteq> CHR ''0''"
    and plain: "plain c"
    using digit19_facts [OF assms(1)] by simp_all
  consider "st = stateBeginValue" | "st = stateBeginValueOrEmpty" | "st = stateNeg"
    using assms(2) by (auto simp: begins_def)
  then show ?thesis
  proof cases
    case 1
    then have "scan_step (scanning st S) c = (scanBeginLiteral, scanning state1 S)"
      using stateBeginValue_fn_digit19 [OF assms(1), of st S]
      by (simp add: scan_step_def scanning_def)
    with plain show ?thesis
      by (rule copies_char) (simp add: skips_def)
  next
    case 2
    then have "scan_step (scanning st S) c = (scanBeginLiteral, scanning state1 S)"
      using stateBeginValue_fn_digit19 [OF assms(1), of st S] space bracket
      by (simp add: scan_step_def scanning_def)
    with plain show ?thesis
      by (rule copies_char) (simp add: skips_def)
  next
    case 3
    then have "scan_step (scanning st S) c = (scanContinue, scanning state1 S)"
      using assms(1) zero by (simp add: scan_step_def scanning_def goto_def)
    with plain show ?thesis
      by (rule copies_char) (simp add: skips_def)
  qed
qed

lemma zero_digit:
  assumes "begins st \<or> st = stateNeg"
  shows "copies (scanning st S) ''0'' (scanning state0 S)"
proof -
  consider "st = stateBeginValue" | "st = stateBeginValueOrEmpty" | "st = stateNeg"
    using assms by (auto simp: begins_def)
  then show ?thesis
  proof cases
    case 1
    then have "scan_step (scanning st S) CHR ''0'' = (scanBeginLiteral, scanning state0 S)"
      by (simp add: scan_step_def stateBeginValue_fn_def scanning_def goto_def isSpace_def)
    then show ?thesis
      by (auto intro: copies_char simp: skips_def plain_def)
  next
    case 2
    then have "scan_step (scanning st S) CHR ''0'' = (scanBeginLiteral, scanning state0 S)"
      by (simp add: scan_step_def stateBeginValue_fn_def scanning_def goto_def isSpace_def)
    then show ?thesis
      by (auto intro: copies_char simp: skips_def plain_def)
  next
    case 3
    then have "scan_step (scanning st S) CHR ''0'' = (scanContinue, scanning state0 S)"
      by (simp add: scan_step_def scanning_def goto_def)
    then show ?thesis
      by (auto intro: copies_char simp: skips_def plain_def)
  qed
qed

lemma minus_sign:
  assumes "begins st"
  shows "copies (scanning st S) ''-'' (scanning stateNeg S)"
proof -
  from assms have "scan_step (scanning st S) CHR ''-'' = (scanBeginLiteral, scanning stateNeg S)"
    by (auto simp: begins_def scan_step_def stateBeginValue_fn_def scanning_def goto_def isSpace_def)
  then show ?thesis
    by (auto intro: copies_char simp: skips_def plain_def)
qed

lemma point_state:
  assumes "st = state0 \<or> st = state1"
  shows "copies (scanning st S) ''.'' (scanning stateDot S)"
proof -
  from assms have "scan_step (scanning st S) CHR ''.'' = (scanContinue, scanning stateDot S)"
    by (auto simp: scan_step_def state0_fn_def scanning_def goto_def is_digit_def)
  then show ?thesis
    by (auto intro: copies_char simp: skips_def plain_def)
qed

lemma dec_copies:
  assumes "begins st \<or> st = stateNeg"
  shows "\<exists>st'. (st' = state0 \<or> st' = state1) \<and> copies (scanning st S) (dec n) (scanning st' S)"
proof (cases "n = 0")
  case True
  with assms show ?thesis
    using zero_digit [of st S] by (auto simp: dec_0)
next
  case False
  then obtain d ds where "dec n = d # ds" "is_digit19 d" "list_all is_digit ds"
    using dec_positive [of n] by auto
  with assms show ?thesis
    using copies_Cons [OF first_digit digits_state1, of d st ds S] by auto
qed

lemma fmt_f_copies:
  assumes "is_finite x" and "begins st"
  shows "copies (scanning st S) (fmt_f x) (scanning stateDot0 S)"
proof -
  from assms(1) obtain s m e where x: "x = Finite s m e"
    by (cases x) auto
  define n where "n = millionths m e"
  obtain d ds where pad: "pad6 (n mod 10 ^ 6) = d # ds" "is_digit d" "list_all is_digit ds"
    using pad6_digits by blast
  have frac: "copies (scanning stateDot S) (pad6 (n mod 10 ^ 6)) (scanning stateDot0 S)"
    unfolding pad using pad(2,3) by (auto intro: copies_Cons digit_stateDot digits_stateDot0)
  have unsigned: "copies (scanning st' S) (dec (n div 10 ^ 6) @ CHR ''.'' # pad6 (n mod 10 ^ 6))
      (scanning stateDot0 S)" if "begins st' \<or> st' = stateNeg" for st'
  proof -
    from that obtain st'' where st'': "st'' = state0 \<or> st'' = state1"
      and int: "copies (scanning st' S) (dec (n div 10 ^ 6)) (scanning st'' S)"
      using dec_copies by blast
    have "copies (scanning st'' S) (CHR ''.'' # pad6 (n mod 10 ^ 6)) (scanning stateDot0 S)"
      by (rule copies_Cons [OF point_state [OF st''] frac])
    with int show ?thesis
      by (rule copies_append)
  qed
  show ?thesis
  proof (cases s)
    case True
    have "copies (scanning st S) (CHR ''-'' # dec (n div 10 ^ 6) @ CHR ''.'' # pad6 (n mod 10 ^ 6))
        (scanning stateDot0 S)"
      by (rule copies_Cons [OF minus_sign [OF assms(2)] unsigned]) simp
    with True show ?thesis
      by (simp add: x n_def Let_def)
  next
    case False
    have "copies (scanning st S) (dec (n div 10 ^ 6) @ CHR ''.'' # pad6 (n mod 10 ^ 6))
        (scanning stateDot0 S)"
      by (rule unsigned) (simp add: assms(2))
    with False show ?thesis
      by (simp add: x n_def Let_def)
  qed
qed

subsection \<open>Values\<close>

lemma scansI:
  assumes "\<And>st S. begins st \<Longrightarrow> S \<noteq> [] \<Longrightarrow> length S + k \<le> maxNestingDepth \<Longrightarrow>
    \<exists>st'. ended st' \<and> copies (scanning st S) t (scanning st' S)"
  shows "scans k t"
  using assms by (simp add: scans_def)

lemma scansD:
  assumes "scans k t" and "begins st" and "S \<noteq> []" and "length S + k \<le> maxNestingDepth"
  obtains st' where "ended st'" and "copies (scanning st S) t (scanning st' S)"
  using assms by (auto simp: scans_def)

lemma scans_top_scans:
  assumes "scans_top k t"
  shows "scans k t"
proof (rule scansI)
  fix st and S :: "parse_state list"
  assume "begins st" and "S \<noteq> []" and "length S + k \<le> maxNestingDepth"
  with assms have "copies (scanning st S) t (finished S)"
    by (simp add: scans_top_def)
  with \<open>S \<noteq> []\<close> have "copies (scanning st S) t (scanning stateEndValue S)"
    by (simp add: finished_def)
  then show "\<exists>st'. ended st' \<and> copies (scanning st S) t (scanning st' S)"
    by (auto simp: ended_def)
qed

lemma scans_mono: "scans k t \<Longrightarrow> k \<le> k' \<Longrightarrow> scans k' t"
  by (simp add: scans_def)

lemma scans_top_mono: "scans_top k t \<Longrightarrow> k \<le> k' \<Longrightarrow> scans_top k' t"
  by (simp add: scans_top_def)

lemma compact_scans_top: "scans_top k t \<Longrightarrow> k \<le> maxNestingDepth \<Longrightarrow> compact t = Some t"
  using compact_copies [of t]
  by (simp add: scans_top_def newScanner_def scanning_def begins_def)

lemma fmt_f_scans: "is_finite x \<Longrightarrow> scans 0 (fmt_f x)"
  using fmt_f_copies by (intro scansI) (auto simp: ended_def)

lemma encode_int_scans: "scans 0 (encode_int i)"
proof (rule scansI)
  fix st and S :: "parse_state list"
  assume st: "begins st"
  show "\<exists>st'. ended st' \<and> copies (scanning st S) (encode_int i) (scanning st' S)"
  proof (cases "i < 0")
    case True
    obtain st' where "st' = state0 \<or> st' = state1"
      and "copies (scanning stateNeg S) (dec (nat (- i))) (scanning st' S)"
      using dec_copies [of stateNeg S "nat (- i)"] by auto
    with True copies_Cons [OF minus_sign [OF st]] show ?thesis
      by (auto simp: encode_int_def ended_def)
  next
    case False
    obtain st' where "st' = state0 \<or> st' = state1"
      and "copies (scanning st S) (dec (nat i)) (scanning st' S)"
      using dec_copies [of st S "nat i"] st by auto
    with False show ?thesis
      by (auto simp: encode_int_def ended_def)
  qed
qed

subsection \<open>Arrays and literals\<close>

lemma open_array:
  assumes "begins st" and "length S < maxNestingDepth"
  shows "copies (scanning st S) ''['' (scanning stateBeginValueOrEmpty (parseArrayValue # S))"
proof -
  from assms have "scan_step (scanning st S) CHR ''[''
      = (scanBeginArray, scanning stateBeginValueOrEmpty (parseArrayValue # S))"
    by (auto simp: begins_def scan_step_def stateBeginValue_fn_def pushParseState_def
        scanning_def isSpace_def)
  then show ?thesis
    by (auto intro: copies_char simp: skips_def plain_def)
qed

lemma comma_array:
  assumes "ended st"
  shows "copies (scanning st (parseArrayValue # S)) '',''
           (scanning stateBeginValue (parseArrayValue # S))"
proof -
  from assms have "scan_step (scanning st (parseArrayValue # S)) CHR '',''
      = (scanArrayValue, scanning stateBeginValue (parseArrayValue # S))"
    by (auto simp: ended_def scan_step_def state0_fn_def stateEndValue_fn_def scanning_def
        goto_def isSpace_def is_digit_def)
  then show ?thesis
    by (auto intro: copies_char simp: skips_def plain_def)
qed

lemma close_array:
  assumes "ended st \<or> st = stateBeginValueOrEmpty"
  shows "copies (scanning st (parseArrayValue # S)) '']'' (finished S)"
proof -
  from assms have "scan_step (scanning st (parseArrayValue # S)) CHR '']''
      = (scanEndArray, finished S)"
    by (auto simp: ended_def scan_step_def state0_fn_def stateEndValue_fn_def popParseState_def
        scanning_def finished_def isSpace_def is_digit_def)
  then show ?thesis
    by (auto intro: copies_char simp: skips_def plain_def)
qed

lemma begin_literal:
  assumes "begins st"
  shows "copies (scanning st S) ''n'' (scanning stateN S)"
    and "copies (scanning st S) ''t'' (scanning stateT S)"
    and "copies (scanning st S) ''f'' (scanning stateF S)"
proof -
  have "scan_step (scanning st S) CHR ''n'' = (scanBeginLiteral, scanning stateN S)"
    and "scan_step (scanning st S) CHR ''t'' = (scanBeginLiteral, scanning stateT S)"
    and "scan_step (scanning st S) CHR ''f'' = (scanBeginLiteral, scanning stateF S)"
    using assms
    by (auto simp: begins_def scan_step_def stateBeginValue_fn_def scanning_def goto_def isSpace_def)
  then show "copies (scanning st S) ''n'' (scanning stateN S)"
    and "copies (scanning st S) ''t'' (scanning stateT S)"
    and "copies (scanning st S) ''f'' (scanning stateF S)"
    by (auto intro: copies_char simp: skips_def plain_def)
qed

lemma in_literal:
  "copies (scanning stateN S) ''u'' (scanning stateNu S)"
  "copies (scanning stateNu S) ''l'' (scanning stateNul S)"
  "copies (scanning stateNul S) ''l'' (scanning stateEndValue S)"
  "copies (scanning stateT S) ''r'' (scanning stateTr S)"
  "copies (scanning stateTr S) ''u'' (scanning stateTru S)"
  "copies (scanning stateTru S) ''e'' (scanning stateEndValue S)"
  "copies (scanning stateF S) ''a'' (scanning stateFa S)"
  "copies (scanning stateFa S) ''l'' (scanning stateFal S)"
  "copies (scanning stateFal S) ''s'' (scanning stateFals S)"
  "copies (scanning stateFals S) ''e'' (scanning stateEndValue S)"
  by (rule copies_char [where v = scanContinue];
      simp add: plain_def skips_def scan_step_def expect_def scanning_def goto_def)+

lemma literal_copies:
  assumes "begins st"
  shows "copies (scanning st S) ''null'' (scanning stateEndValue S)"
    and "copies (scanning st S) ''true'' (scanning stateEndValue S)"
    and "copies (scanning st S) ''false'' (scanning stateEndValue S)"
proof -
  have n: "copies (scanning st S) ''n'' (scanning stateN S)"
    and t: "copies (scanning st S) ''t'' (scanning stateT S)"
    and f: "copies (scanning st S) ''f'' (scanning stateF S)"
    using assms by (rule begin_literal)+
  have "copies (scanning stateNu S) ''ll'' (scanning stateEndValue S)"
    by (rule copies_Cons [of _ _ "scanning stateNul S"]) (simp_all add: in_literal)
  then have "copies (scanning stateN S) ''ull'' (scanning stateEndValue S)"
    by (rule copies_Cons [of _ _ "scanning stateNu S", rotated]) (simp add: in_literal)
  with n show "copies (scanning st S) ''null'' (scanning stateEndValue S)"
    by (rule copies_Cons)
  have "copies (scanning stateTr S) ''ue'' (scanning stateEndValue S)"
    by (rule copies_Cons [of _ _ "scanning stateTru S"]) (simp_all add: in_literal)
  then have "copies (scanning stateT S) ''rue'' (scanning stateEndValue S)"
    by (rule copies_Cons [of _ _ "scanning stateTr S", rotated]) (simp add: in_literal)
  with t show "copies (scanning st S) ''true'' (scanning stateEndValue S)"
    by (rule copies_Cons)
  have "copies (scanning stateFal S) ''se'' (scanning stateEndValue S)"
    by (rule copies_Cons [of _ _ "scanning stateFals S"]) (simp_all add: in_literal)
  then have "copies (scanning stateFa S) ''lse'' (scanning stateEndValue S)"
    by (rule copies_Cons [of _ _ "scanning stateFal S", rotated]) (simp add: in_literal)
  then have "copies (scanning stateF S) ''alse'' (scanning stateEndValue S)"
    by (rule copies_Cons [of _ _ "scanning stateFa S", rotated]) (simp add: in_literal)
  with f show "copies (scanning st S) ''false'' (scanning stateEndValue S)"
    by (rule copies_Cons)
qed

lemma literal_scans:
  "scans 0 ''null''" "scans 0 ''true''" "scans 0 ''false''"
  using literal_copies by (auto intro!: scansI simp: ended_def)

lemma array_tail_scans:
  assumes "list_all (scans k) ts" and "length S + Suc k \<le> maxNestingDepth" and "ended st"
  shows "copies (scanning st (parseArrayValue # S))
           (concat (map ((#) CHR '','') ts) @ '']'') (finished S)"
  using assms(1,3)
proof (induction ts arbitrary: st)
  case Nil
  then show ?case
    using close_array [of st S] by simp
next
  case (Cons t ts)
  let ?A = "parseArrayValue # S"
  from Cons.prems have "scans k t" by simp
  then obtain st' where st': "ended st'"
    and t: "copies (scanning stateBeginValue ?A) t (scanning st' ?A)"
    using assms(2) by (elim scansD [where st = stateBeginValue and S = ?A]) (simp_all add: begins_def)
  have "copies (scanning st' ?A) (concat (map ((#) CHR '','') ts) @ '']'') (finished S)"
    using Cons st' by simp
  with t have "copies (scanning stateBeginValue ?A)
      (t @ concat (map ((#) CHR '','') ts) @ '']'') (finished S)"
    by (rule copies_append)
  then show ?case
    using copies_Cons [OF comma_array [OF \<open>ended st\<close>, of S]] by simp
qed

lemma array_scans:
  assumes "list_all (scans k) ts"
  shows "scans_top (Suc k) (''['' @ join ts @ '']'')"
  unfolding scans_top_def
proof (intro allI impI)
  fix st and S :: "parse_state list"
  assume st: "begins st" and depth: "length S + Suc k \<le> maxNestingDepth"
  let ?A = "parseArrayValue # S"
  have inner: "copies (scanning stateBeginValueOrEmpty ?A) (join ts @ '']'') (finished S)"
  proof (cases ts)
    case Nil
    then show ?thesis
      using close_array [of stateBeginValueOrEmpty S] by simp
  next
    case (Cons t ts')
    with assms have "scans k t" and ts': "list_all (scans k) ts'"
      by simp_all
    then obtain st' where st': "ended st'"
      and t: "copies (scanning stateBeginValueOrEmpty ?A) t (scanning st' ?A)"
      using depth
      by (elim scansD [where st = stateBeginValueOrEmpty and S = ?A]) (simp_all add: begins_def)
    from copies_append [OF t array_tail_scans [OF ts' depth st']] show ?thesis
      unfolding Cons by simp
  qed
  show "copies (scanning st S) (''['' @ join ts @ '']'') (finished S)"
    by (rule copies_append [OF open_array [OF st] inner]) (use depth in simp)
qed

lemma Position_scans:
  assumes "finite_Position p"
  shows "scans_top 1 (Position_MarshalJSON p)"
proof -
  have "list_all (scans 0) [fmt_f (Longitude p), fmt_f (Latitude p)]"
    using assms by (simp add: finite_Position_def fmt_f_scans)
  from array_scans [OF this] show ?thesis
    by (simp add: Position_MarshalJSON_def)
qed

subsection \<open>Strings\<close>

text \<open>
  Whatever bytes a string holds, the text \<open>appendString\<close> writes for it is copied
  unchanged: it holds no byte the loop escapes and no escape the scanner rejects.
\<close>

lemma hex_cases:
  "d < 16 \<Longrightarrow> hex d \<in> set ''0123456789abcdef''"
proof -
  assume "d < 16"
  then have "d = 0 \<or> d = 1 \<or> d = 2 \<or> d = 3 \<or> d = 4 \<or> d = 5 \<or> d = 6 \<or> d = 7 \<or> d = 8 \<or> d = 9
      \<or> d = 10 \<or> d = 11 \<or> d = 12 \<or> d = 13 \<or> d = 14 \<or> d = 15"
    by arith
  then show ?thesis
    by (auto simp: hex_def)
qed

lemma is_hex_hex: "d < 16 \<Longrightarrow> is_hex (hex d)"
  using hex_cases [of d] by (auto simp: is_hex_def)

lemma is_hex_plain: "is_hex c \<Longrightarrow> plain c"
  by (auto simp: is_hex_def plain_def)

lemma not_high:
  "\<not> high CHR 0x22" "\<not> high CHR 0x5C" "\<not> high CHR ''<''" "\<not> high CHR ''>''" "\<not> high CHR ''&''"
  by (simp_all add: high_def)

lemma high_facts:
  assumes "high c"
  shows "c \<noteq> CHR 0x22" "c \<noteq> CHR 0x5C" "c \<noteq> CHR ''<''" "c \<noteq> CHR ''>''" "c \<noteq> CHR ''&''"
    and "\<not> of_char c < (0x20 :: nat)"
  using assms not_high by (auto simp: high_def)

lemma in_string_high:
  assumes "high c"
  shows "scan_step (scanning stateInString S) c = (scanContinue, scanning stateInString S)"
  by (simp add: high_facts [OF assms] scan_step_def scanning_def)

lemma high_byte:
  assumes "high c" and "c \<noteq> CHR 0xE2"
  shows "copies (scanning stateInString S) [c] (scanning stateInString S)"
  using in_string_high [OF assms(1)]
  by (rule copies_char [rotated]) (simp_all add: skips_def plain_def high_facts [OF assms(1)] assms(2))

lemma E2_chunk:
  assumes "high x" and "high y" and "x \<noteq> CHR 0xE2" and "y \<noteq> CHR 0xE2"
    and "\<not> (x = CHR 0x80 \<and> (y = CHR 0xA8 \<or> y = CHR 0xA9))"
  shows "copies (scanning stateInString S) [CHR 0xE2, x, y] (scanning stateInString S)"
proof -
  have E2: "high CHR 0xE2"
    by (simp add: high_def)
  show ?thesis
    using assms(3-5)
    by (auto simp: copies_def in_string_high [OF E2] in_string_high [OF assms(1)]
        in_string_high [OF assms(2)] high_facts [OF assms(1)] high_facts [OF assms(2)]
        skips_def split: prod.splits)
qed

lemma safe_facts:
  assumes "safe c"
  shows "c \<noteq> CHR 0x22" "c \<noteq> CHR 0x5C" "c \<noteq> CHR ''<''" "c \<noteq> CHR ''>''" "c \<noteq> CHR ''&''"
    and "\<not> of_char c < (0x20 :: nat)" and "of_char c < (0x80 :: nat)" and "c \<noteq> CHR 0xE2"
proof -
  show "c \<noteq> CHR 0x22" "c \<noteq> CHR 0x5C" "c \<noteq> CHR ''<''" "c \<noteq> CHR ''>''" "c \<noteq> CHR ''&''"
    and "\<not> of_char c < (0x20 :: nat)" and lt: "of_char c < (0x80 :: nat)"
    using assms by (simp_all add: safe_def)
  show "c \<noteq> CHR 0xE2"
  proof
    assume "c = CHR 0xE2"
    with lt show False by simp
  qed
qed

lemma safe_plain: "safe c \<Longrightarrow> plain c"
  by (simp add: plain_def safe_facts)

lemma escape_ascii_safe: "safe c \<Longrightarrow> escape_ascii c = [c]"
  by (simp add: safe_def escape_ascii_def)

lemma in_string_char:
  assumes "safe c"
  shows "copies (scanning stateInString S) [c] (scanning stateInString S)"
proof -
  have "scan_step (scanning stateInString S) c = (scanContinue, scanning stateInString S)"
    by (simp add: safe_facts [OF assms] scan_step_def scanning_def)
  with safe_plain [OF assms] show ?thesis
    by (rule copies_char) (simp add: skips_def)
qed

lemma open_quote:
  assumes "begins st \<or> st = stateBeginString \<or> st = stateBeginStringOrEmpty"
  shows \<open>copies (scanning st S) ''"'' (scanning stateInString S)\<close>
proof -
  from assms have \<open>scan_step (scanning st S) CHR ''"'' = (scanBeginLiteral, scanning stateInString S)\<close>
    by (auto simp: begins_def scan_step_def stateBeginValue_fn_def stateBeginString_fn_def
        scanning_def goto_def isSpace_def)
  then show ?thesis
    by (auto intro: copies_char simp: skips_def plain_def)
qed

lemma close_quote:
  \<open>copies (scanning stateInString S) ''"'' (scanning stateEndValue S)\<close>
proof -
  have \<open>scan_step (scanning stateInString S) CHR ''"'' = (scanContinue, scanning stateEndValue S)\<close>
    by (simp add: scan_step_def scanning_def goto_def)
  then show ?thesis
    by (auto intro: copies_char simp: skips_def plain_def)
qed

lemma open_object:
  assumes "begins st" and "length S < maxNestingDepth"
  shows "copies (scanning st S) ''{'' (scanning stateBeginStringOrEmpty (parseObjectKey # S))"
proof -
  from assms have "scan_step (scanning st S) CHR ''{''
      = (scanBeginObject, scanning stateBeginStringOrEmpty (parseObjectKey # S))"
    by (auto simp: begins_def scan_step_def stateBeginValue_fn_def pushParseState_def
        scanning_def isSpace_def)
  then show ?thesis
    by (auto intro: copies_char simp: skips_def plain_def)
qed

lemma colon_object:
  "copies (scanning stateEndValue (parseObjectKey # S)) '':''
     (scanning stateBeginValue (parseObjectValue # S))"
proof -
  have "scan_step (scanning stateEndValue (parseObjectKey # S)) CHR '':''
      = (scanObjectKey, scanning stateBeginValue (parseObjectValue # S))"
    by (simp add: scan_step_def stateEndValue_fn_def scanning_def isSpace_def)
  then show ?thesis
    by (auto intro: copies_char simp: skips_def plain_def)
qed

lemma comma_object:
  assumes "ended st"
  shows "copies (scanning st (parseObjectValue # S)) '',''
     (scanning stateBeginString (parseObjectKey # S))"
proof -
  from assms have "scan_step (scanning st (parseObjectValue # S)) CHR '',''
      = (scanObjectValue, scanning stateBeginString (parseObjectKey # S))"
    by (auto simp: ended_def scan_step_def state0_fn_def stateEndValue_fn_def scanning_def
        isSpace_def is_digit_def)
  then show ?thesis
    by (auto intro: copies_char simp: skips_def plain_def)
qed

lemma close_object:
  assumes "ended st"
  shows "copies (scanning st (parseObjectValue # S)) ''}'' (finished S)"
proof -
  from assms have "scan_step (scanning st (parseObjectValue # S)) CHR ''}''
      = (scanEndObject, finished S)"
    by (auto simp: ended_def scan_step_def state0_fn_def stateEndValue_fn_def popParseState_def
        scanning_def finished_def isSpace_def is_digit_def)
  then show ?thesis
    by (auto intro: copies_char simp: skips_def plain_def)
qed

lemma empty_object:
  "copies (scanning stateBeginStringOrEmpty (parseObjectKey # S)) ''}'' (finished S)"
proof -
  have "scan_step (scanning stateBeginStringOrEmpty (parseObjectKey # S)) CHR ''}''
      = (scanEndObject, finished S)"
    by (auto simp: scan_step_def stateEndValue_fn_def popParseState_def scanning_def finished_def
        isSpace_def)
  then show ?thesis
    by (auto intro: copies_char simp: skips_def plain_def)
qed

lemma backslash_step:
  "copies (scanning stateInString S) [CHR 0x5C] (scanning stateInStringEsc S)"
  by (rule copies_char [where v = scanContinue])
     (simp_all add: plain_def skips_def scan_step_def scanning_def goto_def)

lemma escaped_char:
  "copies (scanning stateInStringEsc S) ''b'' (scanning stateInString S)"
  "copies (scanning stateInStringEsc S) ''f'' (scanning stateInString S)"
  "copies (scanning stateInStringEsc S) ''n'' (scanning stateInString S)"
  "copies (scanning stateInStringEsc S) ''r'' (scanning stateInString S)"
  "copies (scanning stateInStringEsc S) ''t'' (scanning stateInString S)"
  "copies (scanning stateInStringEsc S) [CHR 0x5C] (scanning stateInString S)"
  "copies (scanning stateInStringEsc S) [CHR 0x22] (scanning stateInString S)"
  "copies (scanning stateInStringEsc S) ''u'' (scanning stateInStringEscU S)"
  by (rule copies_char [where v = scanContinue];
      simp add: plain_def skips_def scan_step_def scanning_def goto_def)+

lemma hex_digit_step:
  assumes "is_hex c"
  shows "copies (scanning stateInStringEscU S) [c] (scanning stateInStringEscU1 S)"
    and "copies (scanning stateInStringEscU1 S) [c] (scanning stateInStringEscU12 S)"
    and "copies (scanning stateInStringEscU12 S) [c] (scanning stateInStringEscU123 S)"
    and "copies (scanning stateInStringEscU123 S) [c] (scanning stateInString S)"
  by (rule copies_char [where v = scanContinue];
      simp add: assms is_hex_plain skips_def scan_step_def expect_hex_def scanning_def goto_def)+

lemma unicode_escape:
  assumes "is_hex a" and "is_hex b" and "is_hex c" and "is_hex d"
  shows "copies (scanning stateInString S) [CHR 0x5C, CHR ''u'', a, b, c, d] (scanning stateInString S)"
  by (intro copies_Cons [OF backslash_step] copies_Cons [OF escaped_char(8)]
        copies_Cons [OF hex_digit_step(1) [OF assms(1)]]
        copies_Cons [OF hex_digit_step(2) [OF assms(2)]]
        copies_Cons [OF hex_digit_step(3) [OF assms(3)]] hex_digit_step(4) [OF assms(4)])

lemma escape_ascii_copies:
  assumes "of_char c < (0x80 :: nat)"
  shows "copies (scanning stateInString S) (escape_ascii c) (scanning stateInString S)"
proof -
  let ?unsafe = "[CHR 0x22, CHR 0x5C, CHR ''<'', CHR ''>'', CHR ''&'']"
  consider (safe) "(0x20 :: nat) \<le> of_char c \<and> c \<notin> set ?unsafe"
    | (quote) "c = CHR 0x22" | (backslash) "c = CHR 0x5C"
    | (b) "c = CHR 0x08" | (f) "c = CHR 0x0C" | (n) "c = CHR 0x0A" | (r) "c = CHR 0x0D"
    | (t) "c = CHR 0x09"
    | (other) "\<not> ((0x20 :: nat) \<le> of_char c \<and> c \<notin> set ?unsafe)"
        "c \<noteq> CHR 0x22" "c \<noteq> CHR 0x5C" "c \<noteq> CHR 0x08" "c \<noteq> CHR 0x0C"
        "c \<noteq> CHR 0x0A" "c \<noteq> CHR 0x0D" "c \<noteq> CHR 0x09"
    by blast
  then show ?thesis
  proof cases
    case safe
    with assms have "safe c"
      by (simp add: safe_def)
    with safe show ?thesis
      by (simp add: escape_ascii_safe in_string_char)
  next
    case quote
    then show ?thesis
      using copies_Cons [OF backslash_step escaped_char(7), of S] by (simp add: escape_ascii_def)
  next
    case backslash
    then show ?thesis
      using copies_Cons [OF backslash_step escaped_char(6), of S] by (simp add: escape_ascii_def)
  next
    case b
    then show ?thesis
      using copies_Cons [OF backslash_step escaped_char(1), of S] by (simp add: escape_ascii_def)
  next
    case f
    then show ?thesis
      using copies_Cons [OF backslash_step escaped_char(2), of S] by (simp add: escape_ascii_def)
  next
    case n
    then show ?thesis
      using copies_Cons [OF backslash_step escaped_char(3), of S] by (simp add: escape_ascii_def)
  next
    case r
    then show ?thesis
      using copies_Cons [OF backslash_step escaped_char(4), of S] by (simp add: escape_ascii_def)
  next
    case t
    then show ?thesis
      using copies_Cons [OF backslash_step escaped_char(5), of S] by (simp add: escape_ascii_def)
  next
    case other
    have "(of_char c :: nat) div 16 < 16" and "(of_char c :: nat) mod 16 < 16"
      using assms by simp_all
    then have "copies (scanning stateInString S)
        [CHR 0x5C, CHR ''u'', CHR ''0'', CHR ''0'', hex (of_char c div 16), hex (of_char c mod 16)]
        (scanning stateInString S)"
      by (intro unicode_escape is_hex_hex) (simp_all add: is_hex_def)
    moreover have "escape_ascii c
        = [CHR 0x5C, CHR ''u'', CHR ''0'', CHR ''0'', hex (of_char c div 16), hex (of_char c mod 16)]"
      using other by (simp add: escape_ascii_def)
    ultimately show ?thesis
      by simp
  qed
qed

lemma cont_high: "cont c \<Longrightarrow> high c" and cont_not_E2: "cont c \<Longrightarrow> c \<noteq> CHR 0xE2"
  by (auto simp: cont_def in_range_def high_def)

lemma cont_byte:
  "cont c \<Longrightarrow> copies (scanning stateInString S) [c] (scanning stateInString S)"
  by (simp add: high_byte cont_high cont_not_E2)

lemma rune_size_cases:
  assumes "rune_size (c # cs) = n" and "n \<noteq> 0"
  obtains (two) x cs' where "n = 2" "cs = x # cs'" "cont x" "c \<noteq> CHR 0xE2"
    | (three) x y cs' where "n = 3" "cs = x # y # cs'" "cont x" "cont y"
    | (four) x y z cs' where "n = 4" "cs = x # y # z # cs'" "cont x" "cont y" "cont z" "c \<noteq> CHR 0xE2"
proof -
  let ?b = "of_char c :: nat"
  consider "0xC2 \<le> ?b \<and> ?b \<le> 0xDF"
    | "\<not> (0xC2 \<le> ?b \<and> ?b \<le> 0xDF)" "0xE0 \<le> ?b \<and> ?b \<le> 0xEF"
    | "\<not> (0xC2 \<le> ?b \<and> ?b \<le> 0xDF)" "\<not> (0xE0 \<le> ?b \<and> ?b \<le> 0xEF)" "0xF0 \<le> ?b \<and> ?b \<le> 0xF4"
    | "\<not> (0xC2 \<le> ?b \<and> ?b \<le> 0xDF)" "\<not> (0xE0 \<le> ?b \<and> ?b \<le> 0xEF)" "\<not> (0xF0 \<le> ?b \<and> ?b \<le> 0xF4)"
    by blast
  then show thesis
  proof cases
    case 1
    then have "c \<noteq> CHR 0xE2"
      by auto
    with 1 assms show thesis
      by (intro two [of "hd cs" "tl cs"])
         (auto simp: Let_def cont_def in_range_def split: list.splits if_splits)
  next
    case 2
    with assms show thesis
      by (intro three [of "hd cs" "hd (tl cs)" "tl (tl cs)"])
         (auto simp: Let_def cont_def in_range_def split: list.splits if_splits)
  next
    case 3
    then have "c \<noteq> CHR 0xE2"
      by auto
    with 3 assms show thesis
      by (intro four [of "hd cs" "hd (tl cs)" "hd (tl (tl cs))" "tl (tl (tl cs))"])
         (auto simp: Let_def cont_def in_range_def split: list.splits if_splits)
  next
    case 4
    with assms show thesis
      by (simp add: Let_def)
  qed
qed

lemma appendString_loop_copies:
  "copies (scanning stateInString S) (appendString_loop cs) (scanning stateInString S)"
proof (induction cs rule: length_induct)
  case (1 cs)
  then have IH: "copies (scanning stateInString S) (appendString_loop ys) (scanning stateInString S)"
    if "length ys < length cs" for ys
    using that by blast
  show ?case
  proof (cases cs)
    case Nil
    then show ?thesis
      by (simp add: copies_Nil)
  next
    case (Cons c cs')
    show ?thesis
    proof (cases "of_char c < (0x80 :: nat)")
      case True
      then have eq: "appendString_loop cs = escape_ascii c @ appendString_loop cs'"
        by (simp add: Cons)
      show ?thesis
        unfolding eq by (rule copies_append [OF escape_ascii_copies [OF True] IH]) (simp add: Cons)
    next
      case False
      then have c: "high c"
        by (simp add: high_def)
      define n where "n = rune_size (c # cs')"
      let ?sep = "n = 3 \<and> c = CHR 0xE2 \<and> cs' ! 0 = CHR 0x80
          \<and> (cs' ! 1 = CHR 0xA8 \<or> cs' ! 1 = CHR 0xA9)"
      have unfold: "appendString_loop cs =
          (if n = 0
           then [CHR 0x5C, CHR ''u'', CHR ''f'', CHR ''f'', CHR ''f'', CHR ''d''] @ appendString_loop cs'
           else if ?sep
             then [CHR 0x5C, CHR ''u'', CHR ''2'', CHR ''0'', CHR ''2'', hex (of_char (cs' ! 1) mod 16)]
                  @ appendString_loop (drop 2 cs')
             else c # take (n - 1) cs' @ appendString_loop (drop (n - 1) cs'))"
        using False by (simp only: Cons appendString_loop.simps if_False Let_def n_def)
      consider (invalid) "n = 0" | (sep) "n \<noteq> 0" ?sep | (raw) "n \<noteq> 0" "\<not> ?sep"
        by blast
      then show ?thesis
      proof cases
        case invalid
        then have eq: "appendString_loop cs
            = [CHR 0x5C, CHR ''u'', CHR ''f'', CHR ''f'', CHR ''f'', CHR ''d''] @ appendString_loop cs'"
          unfolding unfold by simp
        have chunk: "copies (scanning stateInString S)
            [CHR 0x5C, CHR ''u'', CHR ''f'', CHR ''f'', CHR ''f'', CHR ''d''] (scanning stateInString S)"
          by (rule unicode_escape) (simp_all add: is_hex_def)
        show ?thesis
          unfolding eq by (rule copies_append [OF chunk IH]) (simp add: Cons)
      next
        case sep
        then have eq: "appendString_loop cs
            = [CHR 0x5C, CHR ''u'', CHR ''2'', CHR ''0'', CHR ''2'', hex (of_char (cs' ! 1) mod 16)]
              @ appendString_loop (drop 2 cs')"
          unfolding unfold by simp
        have chunk: "copies (scanning stateInString S)
            [CHR 0x5C, CHR ''u'', CHR ''2'', CHR ''0'', CHR ''2'', hex (of_char (cs' ! 1) mod 16)]
            (scanning stateInString S)"
          by (intro unicode_escape is_hex_hex) (simp_all add: is_hex_def)
        show ?thesis
          unfolding eq by (rule copies_append [OF chunk IH]) (simp add: Cons)
      next
        case raw
        then have eq: "appendString_loop cs
            = (c # take (n - 1) cs') @ appendString_loop (drop (n - 1) cs')"
          unfolding unfold by simp
        have chunk: "copies (scanning stateInString S) (c # take (n - 1) cs')
            (scanning stateInString S)"
          using n_def [symmetric] raw(1)
        proof (cases rule: rune_size_cases)
          case (two x cs'')
          then show ?thesis
            using copies_Cons [OF high_byte [OF c] cont_byte, of x S] by simp
        next
          case (three x y cs'')
          show ?thesis
          proof (cases "c = CHR 0xE2")
            case True
            with three raw(2) have "\<not> (x = CHR 0x80 \<and> (y = CHR 0xA8 \<or> y = CHR 0xA9))"
              by simp
            with three True show ?thesis
              using E2_chunk [of x y S] by (simp add: cont_high cont_not_E2)
          next
            case False
            with three show ?thesis
              using copies_Cons [OF high_byte [OF c] copies_Cons [OF cont_byte cont_byte], of x y S]
              by simp
          qed
        next
          case (four x y z cs'')
          then show ?thesis
            using copies_Cons [OF high_byte [OF c]
                copies_Cons [OF cont_byte copies_Cons [OF cont_byte cont_byte]], of x y z S]
            by simp
        qed
        show ?thesis
          unfolding eq by (rule copies_append [OF chunk IH]) (simp add: Cons)
      qed
    qed
  qed
qed

lemma string_copies:
  assumes "begins st \<or> st = stateBeginString \<or> st = stateBeginStringOrEmpty"
  shows "copies (scanning st S) (encode_string cs) (scanning stateEndValue S)"
proof -
  have "copies (scanning stateInString S) (appendString_loop cs @ [CHR 0x22]) (scanning stateEndValue S)"
    using copies_append [OF appendString_loop_copies close_quote] by simp
  then show ?thesis
    using copies_Cons [OF open_quote [OF assms]] by (simp add: encode_string_def)
qed

lemma string_scans: "scans 0 (encode_string cs)"
  using string_copies by (intro scansI) (auto simp: ended_def)

subsection \<open>Objects\<close>

lemma member_copies:
  assumes "scans k (snd kt)" and "length S + Suc k \<le> maxNestingDepth"
    and "st = stateBeginString \<or> st = stateBeginStringOrEmpty"
  obtains st' where "ended st'"
    and "copies (scanning st (parseObjectKey # S)) (member kt) (scanning st' (parseObjectValue # S))"
proof -
  from assms(1,2) obtain st' where st': "ended st'"
    and "copies (scanning stateBeginValue (parseObjectValue # S)) (snd kt)
      (scanning st' (parseObjectValue # S))"
    by (elim scansD [where st = stateBeginValue and S = "parseObjectValue # S"])
       (simp_all add: begins_def)
  then have "copies (scanning stateEndValue (parseObjectKey # S)) ('':'' @ snd kt)
      (scanning st' (parseObjectValue # S))"
    by (intro copies_append [OF colon_object])
  then have "copies (scanning st (parseObjectKey # S)) (member kt) (scanning st' (parseObjectValue # S))"
    unfolding member_def
    by (rule copies_append [OF string_copies, rotated]) (use assms(3) in simp)
  with st' show thesis
    by (rule that)
qed

lemma object_tail_scans:
  assumes "list_all (\<lambda>kt. scans k (snd kt)) ms" and "length S + Suc k \<le> maxNestingDepth"
    and "ended st"
  shows "copies (scanning st (parseObjectValue # S))
           (concat (map ((#) CHR '','') (map member ms)) @ ''}'') (finished S)"
  using assms(1,3)
proof (induction ms arbitrary: st)
  case Nil
  then show ?case
    using close_object [of st S] by simp
next
  case (Cons kt ms)
  from Cons.prems have "scans k (snd kt)"
    by simp
  then obtain st' where st': "ended st'"
    and kt: "copies (scanning stateBeginString (parseObjectKey # S)) (member kt)
      (scanning st' (parseObjectValue # S))"
    using assms(2) by (elim member_copies [where st = stateBeginString and S = S]) simp_all
  have "copies (scanning st' (parseObjectValue # S))
      (concat (map ((#) CHR '','') (map member ms)) @ ''}'') (finished S)"
    using Cons st' by simp
  with kt have "copies (scanning stateBeginString (parseObjectKey # S))
      (member kt @ concat (map ((#) CHR '','') (map member ms)) @ ''}'') (finished S)"
    by (rule copies_append)
  then show ?case
    using copies_Cons [OF comma_object [OF \<open>ended st\<close>, of S]] by simp
qed

lemma object_scans:
  assumes "list_all (\<lambda>kt. scans k (snd kt)) ms"
  shows "scans_top (Suc k) (''{'' @ join (map member ms) @ ''}'')"
  unfolding scans_top_def
proof (intro allI impI)
  fix st and S :: "parse_state list"
  assume st: "begins st" and depth: "length S + Suc k \<le> maxNestingDepth"
  have inner: "copies (scanning stateBeginStringOrEmpty (parseObjectKey # S))
      (join (map member ms) @ ''}'') (finished S)"
  proof (cases ms)
    case Nil
    then show ?thesis
      using empty_object [of S] by simp
  next
    case (Cons kt ms')
    with assms have "scans k (snd kt)" and ms': "list_all (\<lambda>kt. scans k (snd kt)) ms'"
      by simp_all
    then obtain st' where st': "ended st'"
      and kt: "copies (scanning stateBeginStringOrEmpty (parseObjectKey # S)) (member kt)
        (scanning st' (parseObjectValue # S))"
      using depth by (elim member_copies [where st = stateBeginStringOrEmpty and S = S]) simp_all
    from copies_append [OF kt object_tail_scans [OF ms' depth st']] show ?thesis
      unfolding Cons by simp
  qed
  show "copies (scanning st S) (''{'' @ join (map member ms) @ ''}'') (finished S)"
    by (rule copies_append [OF open_object [OF st] inner]) (use depth in simp)
qed

subsection \<open>The encoders\<close>

lemma yields_Inr [simp]: "yields P (Inr t) = P t"
  by (simp add: yields_def)

lemma yieldsE: "yields P r \<Longrightarrow> (\<And>t. r = Inr t \<Longrightarrow> P t \<Longrightarrow> thesis) \<Longrightarrow> thesis"
  by (cases r) (simp_all add: yields_def)

lemma yields_weaken: "yields P r \<Longrightarrow> (\<And>t. P t \<Longrightarrow> Q t) \<Longrightarrow> yields Q r"
  by (cases r) (simp_all add: yields_def)

lemma yields_scans_mono: "yields (scans k) r \<Longrightarrow> k \<le> k' \<Longrightarrow> yields (scans k') r"
  by (erule yields_weaken) (rule scans_mono)

lemma yields_scans_top: "yields (scans_top k) r \<Longrightarrow> yields (scans k) r"
  by (erule yields_weaken) (rule scans_top_scans)

lemma encode_elems_Inr_Cons:
  "encode_elems (Inr t # map Inr ts) = Inr (t @ concat (map ((#) CHR '','') ts))"
  by (induction ts arbitrary: t) simp_all

lemma encode_elems_Inr: "encode_elems (map Inr ts) = Inr (join ts)"
  by (cases ts) (simp_all add: encode_elems_Inr_Cons)

lemma map_yields:
  "\<forall>x \<in> set xs. yields P (f x) \<Longrightarrow> \<exists>ts. map f xs = map Inr ts \<and> list_all P ts"
proof (induction xs)
  case Nil
  show ?case by simp
next
  case (Cons x xs)
  then obtain ts where "map f xs = map Inr ts" "list_all P ts"
    by auto
  moreover from Cons.prems obtain t where "f x = Inr t" "P t"
    by (auto elim: yieldsE)
  ultimately have "map f (x # xs) = map Inr (t # ts) \<and> list_all P (t # ts)"
    by simp
  then show ?case by blast
qed

lemma encode_elems_yields:
  assumes "\<forall>r \<in> set rs. yields P r"
  obtains ts where "rs = map Inr ts" and "list_all P ts" and "encode_elems rs = Inr (join ts)"
  using map_yields [of rs P "\<lambda>r. r"] assms encode_elems_Inr by auto

lemma sliceEncoder_Some_yields:
  assumes "\<forall>r \<in> set rs. yields (scans k) r"
  shows "yields (scans_top (Suc k)) (sliceEncoder (Some rs))"
proof -
  from assms obtain ts where "list_all (scans k) ts" and "encode_elems rs = Inr (join ts)"
    by (rule encode_elems_yields)
  then show ?thesis
    using array_scans [of k ts] by (simp add: sliceEncoder_def)
qed

lemma sliceEncoder_yields:
  assumes "\<forall>x \<in> set (elems c). yields (scans k) (f x)"
  shows "yields (scans (Suc k)) (sliceEncoder (map_option (map f) c))"
proof (cases c)
  case None
  then show ?thesis
    using scans_mono [OF literal_scans(1), of "Suc k"] by (simp add: sliceEncoder_def)
next
  case (Some xs)
  with assms have "\<forall>r \<in> set (map f xs). yields (scans k) r"
    by (simp add: elems_def)
  from yields_scans_top [OF sliceEncoder_Some_yields [OF this]] Some show ?thesis
    by simp
qed

lemma structEncoder_yields:
  assumes "\<forall>kv \<in> set fs. yields (scans k) (snd kv)"
  shows "yields (scans_top (Suc k)) (structEncoder fs)"
proof -
  have "\<exists>ms. fs = map (\<lambda>kt. (fst kt, Inr (snd kt))) ms \<and> list_all (\<lambda>kt. scans k (snd kt)) ms"
    using assms
  proof (induction fs)
    case Nil
    show ?case by simp
  next
    case (Cons kv fs)
    then obtain ms where ms: "fs = map (\<lambda>kt. (fst kt, Inr (snd kt))) ms"
      "list_all (\<lambda>kt. scans k (snd kt)) ms"
      by auto
    from Cons.prems obtain t where t: "snd kv = Inr t" "scans k t"
      by (auto elim: yieldsE)
    then have "kv = (fst kv, Inr t)"
      by (metis prod.collapse)
    with ms t have "kv # fs = map (\<lambda>kt. (fst kt, Inr (snd kt))) ((fst kv, t) # ms)
        \<and> list_all (\<lambda>kt. scans k (snd kt)) ((fst kv, t) # ms)"
      by simp
    then show ?case by (rule exI)
  qed
  then obtain ms where ms: "fs = map (\<lambda>kt. (fst kt, Inr (snd kt))) ms"
    "list_all (\<lambda>kt. scans k (snd kt)) ms"
    by blast
  have "map encode_member fs = map Inr (map member ms)"
    by (simp add: ms(1) encode_member_def member_def)
  then have "structEncoder fs = Inr (''{'' @ join (map member ms) @ ''}'')"
    by (simp add: structEncoder_def encode_elems_Inr del: map_map)
  with object_scans [OF ms(2)] show ?thesis
    by simp
qed

lemma marshalerEncoder_scans_top:
  "scans_top k t \<Longrightarrow> k \<le> maxNestingDepth \<Longrightarrow> marshalerEncoder (Inr t) = Inr t"
  by (simp add: marshalerEncoder_def compact_scans_top)

lemma marshalerEncoder_yields:
  assumes "yields (scans_top k) r" and "k \<le> maxNestingDepth"
  shows "marshalerEncoder r = r"
  using assms by (auto elim!: yieldsE simp: marshalerEncoder_scans_top)

subsection \<open>Geometries\<close>

lemma largest_ge: "n \<in> set ns \<Longrightarrow> n \<le> largest ns"
  by (induction ns) (auto simp: largest_def)

lemma encode_Position_yields:
  assumes "finite_Position p"
  shows "yields (scans (Suc 0)) (encode_Position p)"
  using Position_scans [OF assms] marshalerEncoder_scans_top [of 1 "Position_MarshalJSON p"]
  by (simp add: encode_Position_def scans_top_scans maxNestingDepth_def)

lemma encode_Positions_yields:
  assumes "finite_Positions c"
  shows "yields (scans 2) (encode_Positions c)"
proof -
  have "\<forall>p \<in> set (elems c). yields (scans (Suc 0)) (encode_Position p)"
    using assms by (auto simp: finite_Positions_def list_all_iff intro: encode_Position_yields)
  from sliceEncoder_yields [OF this] show ?thesis
    by (simp add: encode_Positions_def numeral_2_eq_2)
qed

lemma encode_PolygonCoordinates_yields:
  assumes "finite_PolygonCoordinates c"
  shows "yields (scans 3) (encode_PolygonCoordinates c)"
proof -
  have "\<forall>l \<in> set (elems c). yields (scans 2) (encode_Positions l)"
    using assms
    by (auto simp: finite_PolygonCoordinates_def list_all_iff intro: encode_Positions_yields)
  from sliceEncoder_yields [OF this] show ?thesis
    by (simp add: encode_PolygonCoordinates_def numeral_3_eq_3 numeral_2_eq_2)
qed

lemma encode_MultiPolygon_yields:
  assumes "list_all finite_PolygonCoordinates (elems c)"
  shows "yields (scans 4) (sliceEncoder (map_option (map encode_PolygonCoordinates) c))"
proof -
  have "\<forall>p \<in> set (elems c). yields (scans 3) (encode_PolygonCoordinates p)"
    using assms by (auto simp: list_all_iff intro: encode_PolygonCoordinates_yields)
  from sliceEncoder_yields [OF this] show ?thesis
    by simp
qed

lemma marshalGeoJSON_yields:
  assumes "yields (scans k) c"
  shows "yields (scans_top (Suc k)) (marshalGeoJSONGeometryWithCoordinates g c)"
  unfolding marshalGeoJSONGeometryWithCoordinates_def
  using assms scans_mono [OF string_scans, of k]
  by (intro structEncoder_yields) simp

lemma geometry_MarshalJSON_yields:
  assumes "finite_Geometry g" and "geometry_MarshalJSON g = Some r"
  shows "yields (scans_top (nesting_Geometry g)) r" and "nesting_Geometry g \<le> 5"
proof -
  show "nesting_Geometry g \<le> 5"
    using assms(2) by (cases g) simp_all
  show "yields (scans_top (nesting_Geometry g)) r"
  proof (cases g)
    case (Point c)
    with assms marshalGeoJSON_yields [OF encode_Position_yields [of c], of g] show ?thesis
      by (auto simp: numeral_2_eq_2)
  next
    case (MultiPoint c)
    with assms marshalGeoJSON_yields [OF encode_Positions_yields [of c], of g] show ?thesis
      by (auto simp: numeral_3_eq_3)
  next
    case (LineString c)
    with assms marshalGeoJSON_yields [OF encode_Positions_yields [of c], of g] show ?thesis
      by (auto simp: numeral_3_eq_3)
  next
    case (MultiLineString c)
    with assms marshalGeoJSON_yields [OF encode_PolygonCoordinates_yields [of c], of g]
    show ?thesis by auto
  next
    case (Polygon c)
    with assms marshalGeoJSON_yields [OF encode_PolygonCoordinates_yields [of c], of g]
    show ?thesis by auto
  next
    case (MultiPolygon c)
    with assms marshalGeoJSON_yields [OF encode_MultiPolygon_yields [of c], of g]
    show ?thesis by auto
  next
    case (GeometryCollection gs)
    with assms show ?thesis by simp
  qed
qed

lemma encode_Geometry_by_method:
  assumes "finite_Geometry g" and "geometry_MarshalJSON g \<noteq> None"
  shows "yields (scans (nesting_Geometry g)) (encode_Geometry g)"
proof -
  from assms(2) obtain r where r: "geometry_MarshalJSON g = Some r"
    by auto
  note * = geometry_MarshalJSON_yields [OF assms(1) r]
  from r have "encode_Geometry g = marshalerEncoder r"
    by (cases g) simp_all
  also have "\<dots> = r"
    using * by (intro marshalerEncoder_yields) (auto simp: maxNestingDepth_def)
  finally show ?thesis
    using *(1) by (simp add: yields_scans_top)
qed

lemma encode_Geometry_yields:
  "finite_Geometry g \<Longrightarrow> yields (scans (nesting_Geometry g)) (encode_Geometry g)"
proof (induction g rule: encode_Geometry.induct)
  case (1 gs)
  show ?case
  proof (cases gs)
    case None
    then show ?thesis
      by (simp add: sliceEncoder_def literal_scans)
  next
    case (Some xs)
    let ?nest = "\<lambda>g. case g of None \<Rightarrow> 0 | Some g' \<Rightarrow> nesting_Geometry g'"
    let ?k = "largest (map ?nest xs)"
    have "\<forall>r \<in> set (map (\<lambda>g. interfaceEncoder (map_option encode_Geometry g)) xs).
        yields (scans ?k) r"
    proof
      fix r
      assume "r \<in> set (map (\<lambda>g. interfaceEncoder (map_option encode_Geometry g)) xs)"
      then obtain x where x: "x \<in> set xs" and r: "r = interfaceEncoder (map_option encode_Geometry x)"
        by auto
      from x have le: "?nest x \<le> ?k"
        by (intro largest_ge) simp
      show "yields (scans ?k) r"
      proof (cases x)
        case None
        with r scans_mono [OF literal_scans(1), of ?k] show ?thesis
          by (simp add: interfaceEncoder_def)
      next
        case (Some g')
        with x \<open>gs = Some xs\<close> "1.prems" have "finite_Geometry g'"
          by (auto simp: list_all_iff)
        from "1.IH" [OF \<open>gs = Some xs\<close> x Some this] le
        have "yields (scans ?k) (encode_Geometry g')"
          unfolding Some by (simp add: yields_scans_mono)
        with Some r show ?thesis
          by (simp add: interfaceEncoder_def)
      qed
    qed
    from yields_scans_top [OF sliceEncoder_Some_yields [OF this]] Some show ?thesis
      by simp
  qed
qed (rule encode_Geometry_by_method; simp)+

lemma encode_Geometry_succeeds:
  "finite_Geometry g \<Longrightarrow> \<exists>t. encode_Geometry g = Inr t"
  using encode_Geometry_yields [of g] by (auto elim: yieldsE)

subsection \<open>Property values, features and feature collections\<close>

lemma set_insert_entry: "set (insert_entry kv xs) = insert kv (set xs)"
  by (induction xs) auto

lemma set_sort_entries: "set (sort_entries xs) = set xs"
  by (induction xs) (simp_all add: sort_entries_def set_insert_entry)

lemma encode_any_yields:
  "supported v \<Longrightarrow> yields (scans (nesting_any v)) (encode_any v)"
proof (induction v rule: encode_any.induct)
  case (5 s)
  show ?case
  proof (cases s)
    case None
    then show ?thesis
      by (simp add: sliceEncoder_def literal_scans)
  next
    case (Some xs)
    let ?k = "largest (map nesting_any xs)"
    have "\<forall>r \<in> set (map encode_any xs). yields (scans ?k) r"
    proof
      fix r
      assume "r \<in> set (map encode_any xs)"
      then obtain x where x: "x \<in> set xs" and r: "r = encode_any x"
        by auto
      with Some "5.prems" have "supported x"
        by (simp add: list_all_iff)
      from x have "nesting_any x \<le> ?k"
        by (intro largest_ge) simp
      with "5.IH" [OF Some x \<open>supported x\<close>] show "yields (scans ?k) r"
        unfolding r by (rule yields_scans_mono)
    qed
    from yields_scans_top [OF sliceEncoder_Some_yields [OF this]] Some show ?thesis
      by simp
  qed
next
  case (6 m)
  show ?case
  proof (cases m)
    case None
    then show ?thesis
      by (simp add: mapEncoder_def literal_scans)
  next
    case (Some kvs)
    let ?k = "largest (map (\<lambda>kv. nesting_any (snd kv)) kvs)"
    let ?fs = "sort_entries (map (\<lambda>kv. (fst kv, encode_any (snd kv))) kvs)"
    have "\<forall>kr \<in> set ?fs. yields (scans ?k) (snd kr)"
    proof
      fix kr
      assume "kr \<in> set ?fs"
      then obtain kv where kv: "kv \<in> set kvs" and kr: "kr = (fst kv, encode_any (snd kv))"
        by (auto simp: set_sort_entries)
      with Some "6.prems" have "supported (snd kv)"
        by (simp add: list_all_iff)
      from kv have "nesting_any (snd kv) \<le> ?k"
        by (intro largest_ge) simp
      with "6.IH" [OF Some kv \<open>supported (snd kv)\<close>] show "yields (scans ?k) (snd kr)"
        unfolding kr snd_conv by (rule yields_scans_mono)
    qed
    from yields_scans_top [OF structEncoder_yields [OF this]] Some show ?thesis
      by (simp add: mapEncoder_def)
  qed
qed (simp_all add: literal_scans string_scans encode_int_scans)

lemma encode_Feature_field_yields:
  assumes "representable_Feature f"
  shows "\<forall>kv \<in> set (Feature_fields f). yields (scans (nesting_Feature f - 1)) (snd kv)"
proof -
  let ?g = "case Geometry f of None \<Rightarrow> 0 | Some g \<Rightarrow> nesting_Geometry g"
  let ?p = "nesting_any (AnyMap (Properties f))"
  have "yields (scans ?g) (interfaceEncoder (map_option encode_Geometry (Geometry f)))"
    using assms
    by (cases "Geometry f")
       (simp_all add: representable_Feature_def interfaceEncoder_def literal_scans
          encode_Geometry_yields)
  moreover have "yields (scans ?p) (encode_properties (Properties f))"
    using assms encode_any_yields [of "AnyMap (Properties f)"]
    by (simp add: representable_Feature_def encode_properties_def)
  ultimately have "yields (scans (max ?g ?p)) (interfaceEncoder (map_option encode_Geometry (Geometry f)))"
    and "yields (scans (max ?g ?p)) (encode_properties (Properties f))"
    by (simp_all add: yields_scans_mono)
  then show ?thesis
    by (simp add: Feature_fields_def nesting_Feature_def)
qed

lemma Feature_MarshalJSON_yields:
  assumes "representable_Feature f"
  shows "yields (scans_top (nesting_Feature f)) (Feature_MarshalJSON f)"
proof -
  have "\<forall>kv \<in> set ((''type'', Inr (encode_string (Feature_Type f))) # Feature_fields f).
      yields (scans (nesting_Feature f - 1)) (snd kv)"
    using encode_Feature_field_yields [OF assms] scans_mono [OF string_scans]
    by simp
  from structEncoder_yields [OF this] show ?thesis
    by (simp add: Feature_MarshalJSON_def nesting_Feature_def)
qed

lemma encode_Feature_value_yields:
  assumes "representable_Feature f"
  shows "yields (scans_top (nesting_Feature f)) (encode_Feature_value f)"
  using structEncoder_yields [OF encode_Feature_field_yields [OF assms]]
  by (simp add: encode_Feature_value_def nesting_Feature_def)

lemma encode_Feature_addressable_eq:
  assumes "representable_Feature f" and "nesting_Feature f \<le> maxNestingDepth"
  shows "encode_Feature_addressable f = Feature_MarshalJSON f"
  unfolding encode_Feature_addressable_def
  using Feature_MarshalJSON_yields [OF assms(1)] assms(2) by (rule marshalerEncoder_yields)

lemma FeatureCollection_MarshalJSON_yields:
  assumes "list_all representable_Feature (elems c)"
    and "Suc (Suc (largest (map nesting_Feature (elems c)))) \<le> maxNestingDepth"
  shows "yields (scans_top (Suc (Suc (largest (map nesting_Feature (elems c))))))
           (FeatureCollection_MarshalJSON c)"
proof -
  let ?k = "largest (map nesting_Feature (elems c))"
  have "\<forall>f \<in> set (elems c). yields (scans ?k) (encode_Feature_addressable f)"
  proof
    fix f
    assume f: "f \<in> set (elems c)"
    then have le: "nesting_Feature f \<le> ?k"
      by (intro largest_ge) simp
    from f assms(1) have rep: "representable_Feature f"
      by (simp add: list_all_iff)
    with le assms(2) have "encode_Feature_addressable f = Feature_MarshalJSON f"
      by (intro encode_Feature_addressable_eq) simp_all
    with yields_scans_top [OF Feature_MarshalJSON_yields [OF rep]] le
    show "yields (scans ?k) (encode_Feature_addressable f)"
      by (simp add: yields_scans_mono)
  qed
  from sliceEncoder_yields [OF this] scans_mono [OF string_scans, of "Suc ?k"]
  show ?thesis
    unfolding FeatureCollection_MarshalJSON_def
    by (intro structEncoder_yields) simp
qed

text \<open>
  \<open>ToText\<close> returns a text for every object with finite coordinates and supported property
  values whose text, where a \<open>MarshalJSON\<close> method of a feature or a feature collection
  builds it, nests within the limit of the scanner.
\<close>

lemma ToText_succeeds: "encodable x \<Longrightarrow> \<exists>t. ToText x = Inr t"
proof (cases x)
  case (GeometryObject g)
  moreover assume "encodable x"
  ultimately show ?thesis
    by (simp add: encode_Geometry_succeeds)
next
  case (FeatureObject f)
  moreover assume "encodable x"
  ultimately show ?thesis
    using encode_Feature_value_yields [of f] by (auto elim: yieldsE)
next
  case (FeaturePointer f)
  moreover assume "encodable x"
  ultimately show ?thesis
    using encode_Feature_addressable_eq [of f] Feature_MarshalJSON_yields [of f]
    by (auto elim: yieldsE)
next
  case (FeatureCollectionPointer c)
  moreover assume "encodable x"
  ultimately show ?thesis
    using FeatureCollection_MarshalJSON_yields [of c]
      marshalerEncoder_yields [of _ "FeatureCollection_MarshalJSON c"]
    by (auto elim!: yieldsE)
qed




lemma ToText_geometry_Inf_fails:
  "ToText (GeometryObject (NewMultiPoint (variadic [\<lparr>Longitude = f1, Latitude = Inf False\<rparr>])))
   = Inl MarshalerError"
  by (simp add: ctor_defs enc_defs fmt_defs scan_defs)

text \<open>
  For the six geometries with a \<open>MarshalJSON\<close> method and finite coordinates, the
  text is an object whose member \<open>type\<close> is \<open>Type()\<close>.
\<close>

lemma geometry_text_type_member:
  assumes "finite_Geometry g" and "geometry_MarshalJSON g \<noteq> None"
  shows \<open>\<exists>c. ToText (GeometryObject g)
           = Inr (''{"type":'' @ encode_string (Type g) @ '',"coordinates":'' @ c @ ''}'')\<close>
proof -
  from assms(2) obtain r where r: "geometry_MarshalJSON g = Some r"
    by auto
  from geometry_MarshalJSON_yields [OF assms(1) r]
  obtain t where t: "r = Inr t" "scans_top (nesting_Geometry g) t" and le: "nesting_Geometry g \<le> 5"
    by (auto elim: yieldsE)
  from geometry_MarshalJSON_type [OF r] obtain c
    where "r = structEncoder [(''type'', Inr (encode_string (Type g))), (''coordinates'', c)]"
    by blast
  with t(1) obtain ct
    where \<open>t = ''{"type":'' @ encode_string (Type g) @ '',"coordinates":'' @ ct @ ''}''\<close>
    by (auto simp: structEncoder_def encode_member_def encode_string_def escape_ascii_def
        split: sum.splits)
  moreover have "marshalerEncoder r = Inr t"
    using t le by (simp add: marshalerEncoder_scans_top [of "nesting_Geometry g"] maxNestingDepth_def)
  moreover from r have "encode_Geometry g = marshalerEncoder r"
    by (cases g) simp_all
  ultimately show ?thesis
    by simp
qed

section \<open>The properties of a feature\<close>






end
